theory Spec2Isabelle
  imports Main "HOL-Library.AList" "HOL-Library.Char_ord" "HOL-Library.List_Lexorder"
    "HOL-Library.Product_Lexorder"
begin

section \<open>Values, dictionaries and exceptions\<close>

text \<open>
  The items of the curriculum file are JSON values, and the same values travel as
  query parameters into the graph store, where they become node properties.  One type
  covers both; \<open>VTime\<close> is the value of Cypher's \<open>datetime()\<close>, read off an abstract
  clock.  Numbers are Python's unbounded integers (JSON fractions are left out).  A
  dictionary is an association list read with \<open>map_of\<close>.
\<close>

datatype val =
    VNull
  | VBool bool
  | VNum int
  | VStr string
  | VList "val list"
  | VObj "(string \<times> val) list"
  | VTime nat

type_synonym pydict = "(string \<times> val) list"

datatype exn =
    DataValidationError string
  | KeyError string
  | AttributeError
  | TypeError
  | ValueError
  | FileNotFoundError
  | StoreError
  | DatabaseConnectionError
  | UnicodeDecodeError

fun ebind :: "exn + 'a \<Rightarrow> ('a \<Rightarrow> exn + 'b) \<Rightarrow> exn + 'b" where
  "ebind (Inl e) f = Inl e"
| "ebind (Inr x) f = f x"

text \<open>\<open>d[k]\<close>, \<open>d.get(k, default)\<close> and \<open>k in d\<close>.\<close>

definition dict_index :: "pydict \<Rightarrow> string \<Rightarrow> exn + val" where
  "dict_index d k = (case map_of d k of None \<Rightarrow> Inl (KeyError k) | Some v \<Rightarrow> Inr v)"

definition dict_get :: "pydict \<Rightarrow> string \<Rightarrow> val \<Rightarrow> val" where
  "dict_get d k dflt = (case map_of d k of None \<Rightarrow> dflt | Some v \<Rightarrow> v)"

definition dict_has :: "pydict \<Rightarrow> string \<Rightarrow> bool" where
  "dict_has d k = (map_of d k \<noteq> None)"

text \<open>Python's truth value of an object (\<open>if x\<close>, \<open>not x\<close>, \<open>x and y\<close>).\<close>

fun truthy :: "val \<Rightarrow> bool" where
  "truthy VNull = False"
| "truthy (VBool b) = b"
| "truthy (VNum n) = (n \<noteq> 0)"
| "truthy (VStr s) = (s \<noteq> [])"
| "truthy (VList xs) = (xs \<noteq> [])"
| "truthy (VObj kvs) = (kvs \<noteq> [])"
| "truthy (VTime t) = True"

text \<open>
  \<open>str.strip()\<close> removes the characters for which \<open>str.isspace()\<close> holds from both
  ends; among the 8-bit characters these are the codes below.
\<close>

definition is_space :: "char \<Rightarrow> bool" where
  "is_space c = ((of_char c :: nat) \<in> set [9, 10, 11, 12, 13, 28, 29, 30, 31, 32, 133, 160])"

definition strip :: "string \<Rightarrow> string" where
  "strip s = rev (dropWhile is_space (rev (dropWhile is_space s)))"

text \<open>
  What a \<open>for x in v\<close> loop runs over: the elements of a list, the characters of a
  string, the keys of a dictionary; anything else is not iterable.
\<close>

fun py_iter :: "val \<Rightarrow> exn + val list" where
  "py_iter (VList xs) = Inr xs"
| "py_iter (VStr s) = Inr (map (\<lambda>c. VStr [c]) s)"
| "py_iter (VObj kvs) = Inr (map (\<lambda>kv. VStr (fst kv)) kvs)"
| "py_iter v = Inl TypeError"

section \<open>The property graph and the Cypher statements the code runs\<close>

record node =
  n_label :: string
  n_props :: pydict

record edge =
  e_src :: nat
  e_type :: string
  e_dst :: nat
  e_props :: pydict

text \<open>A node is identified by its position in \<open>g_nodes\<close>; the code never deletes one.\<close>

record graph =
  g_nodes :: "node list"
  g_edges :: "edge list"

definition empty_graph :: graph where
  "empty_graph = \<lparr>g_nodes = [], g_edges = []\<rparr>"

text \<open>\<open>n.k\<close>: a property that is not set reads as null.\<close>

definition node_prop :: "node \<Rightarrow> string \<Rightarrow> val" where
  "node_prop n k = (case map_of (n_props n) k of None \<Rightarrow> VNull | Some v \<Rightarrow> v)"

text \<open>
  A property holds a primitive value or a list of primitives of one kind; the store
  refuses a map, a nested or mixed list, and the driver refuses an integer that does
  not fit 64 bits.  Setting a property to null removes it.
\<close>

fun primitive :: "val \<Rightarrow> bool" where
  "primitive (VBool b) = True"
| "primitive (VNum n) = (- (2 ^ 63) \<le> n \<and> n < 2 ^ 63)"
| "primitive (VStr s) = True"
| "primitive (VTime t) = True"
| "primitive v = False"

fun same_kind :: "val \<Rightarrow> val \<Rightarrow> bool" where
  "same_kind (VBool a) (VBool b) = True"
| "same_kind (VNum a) (VNum b) = True"
| "same_kind (VStr a) (VStr b) = True"
| "same_kind (VTime a) (VTime b) = True"
| "same_kind v w = False"

fun storable :: "val \<Rightarrow> bool" where
  "storable (VList xs) =
     (list_all primitive xs \<and> (case xs of [] \<Rightarrow> True | x # ys \<Rightarrow> list_all (same_kind x) ys))"
| "storable v = primitive v"

definition set_prop :: "string \<Rightarrow> val \<Rightarrow> node \<Rightarrow> node" where
  "set_prop k v n =
     (if v = VNull then n\<lparr>n_props := AList.delete k (n_props n)\<rparr>
      else n\<lparr>n_props := AList.update k v (n_props n)\<rparr>)"

text \<open>
  \<open>SET n.k1 = v1, n.k2 = v2, ...\<close> with values that do not depend on the node; the
  statement fails when a value cannot be stored.
\<close>

definition settable :: "(string \<times> val) list \<Rightarrow> bool" where
  "settable kvs = list_all (\<lambda>kv. snd kv = VNull \<or> storable (snd kv)) kvs"

definition set_all :: "(string \<times> val) list \<Rightarrow> node \<Rightarrow> node" where
  "set_all kvs n = foldl (\<lambda>m kv. set_prop (fst kv) (snd kv) m) n kvs"

text \<open>\<open>SET n.k = coalesce(n.k, v)\<close>.\<close>

definition set_coalesce :: "string \<Rightarrow> val \<Rightarrow> node \<Rightarrow> node" where
  "set_coalesce k v n = (if node_prop n k = VNull then set_prop k v n else n)"

text \<open>The pattern \<open>(n:L {k: v})\<close>; comparing with null never matches.\<close>

definition node_matches :: "string \<Rightarrow> string \<Rightarrow> val \<Rightarrow> node \<Rightarrow> bool" where
  "node_matches l k v n = (n_label n = l \<and> v \<noteq> VNull \<and> node_prop n k = v)"

text \<open>
  \<open>MERGE (n:L {k: v})\<close> creates the node when no node matches the pattern.  Merging on
  a null or unstorable value is an error of the store.
\<close>

definition cy_merge_node :: "string \<Rightarrow> string \<Rightarrow> val \<Rightarrow> graph \<Rightarrow> exn + graph" where
  "cy_merge_node l k v g =
     (if v = VNull \<or> \<not> storable v then Inl StoreError
      else if list_ex (node_matches l k v) (g_nodes g) then Inr g
      else Inr (g\<lparr>g_nodes := g_nodes g @ [\<lparr>n_label = l, n_props = [(k, v)]\<rparr>]\<rparr>))"

text \<open>A \<open>SET\<close> clause applied to every node bound by the pattern.\<close>

definition cy_update :: "(node \<Rightarrow> bool) \<Rightarrow> (node \<Rightarrow> node) \<Rightarrow> graph \<Rightarrow> graph" where
  "cy_update P f g = g\<lparr>g_nodes := map (\<lambda>n. if P n then f n else n) (g_nodes g)\<rparr>"

definition match_ids :: "(node \<Rightarrow> bool) \<Rightarrow> graph \<Rightarrow> nat list" where
  "match_ids P g = filter (\<lambda>i. P (g_nodes g ! i)) [0 ..< length (g_nodes g)]"

definition has_edge :: "nat \<Rightarrow> string \<Rightarrow> nat \<Rightarrow> graph \<Rightarrow> bool" where
  "has_edge i ty j g = list_ex (\<lambda>e. e_src e = i \<and> e_type e = ty \<and> e_dst e = j) (g_edges g)"

text \<open>\<open>MERGE (a)-[:T]->(b)\<close> for bound nodes \<open>a\<close> and \<open>b\<close>.\<close>

definition merge_edge :: "string \<Rightarrow> graph \<Rightarrow> nat \<times> nat \<Rightarrow> graph" where
  "merge_edge ty g ij =
     (if has_edge (fst ij) ty (snd ij) g then g
      else g\<lparr>g_edges := g_edges g @ [\<lparr>e_src = fst ij, e_type = ty, e_dst = snd ij, e_props = []\<rparr>]\<rparr>)"

text \<open>\<open>MATCH (a ...) MATCH (b ...) MERGE (a)-[:T]->(b)\<close>: one merge per pair of matches.\<close>

definition cy_link :: "(node \<Rightarrow> bool) \<Rightarrow> string \<Rightarrow> (node \<Rightarrow> bool) \<Rightarrow> graph \<Rightarrow> graph" where
  "cy_link P ty Q g = foldl (merge_edge ty) g (List.product (match_ids P g) (match_ids Q g))"

section \<open>The upsert engine (\<open>SetupRepository\<close>)\<close>

definition required_fields :: "string list" where
  "required_fields =
     [''id'', ''question_title'', ''question'', ''difficulty'', ''step_no'', ''sub_step_no'', ''sl_no'']"

definition missing_fields :: "pydict \<Rightarrow> string list" where
  "missing_fields item = filter (\<lambda>field. \<not> dict_has item field) required_fields"

text \<open>How Python prints a list of such field names: \<open>['id', 'question']\<close>.\<close>

fun join_fields :: "string list \<Rightarrow> string" where
  "join_fields [] = []"
| "join_fields [f] = [CHR 0x27] @ f @ [CHR 0x27]"
| "join_fields (f # fs) = [CHR 0x27] @ f @ [CHR 0x27] @ '', '' @ join_fields fs"

definition missing_message :: "string list \<Rightarrow> string" where
  "missing_message fs = ''Missing required fields: ['' @ join_fields fs @ '']''"

definition validate_question_data :: "pydict \<Rightarrow> exn + unit" where
  "validate_question_data item =
     (if missing_fields item \<noteq> [] then Inl (DataValidationError (missing_message (missing_fields item)))
      else Inr ())"

text \<open>
  The statement of \<open>_create_question_node\<close>:
  \<^verbatim>\<open>MERGE (q:Question {id: $id}) SET q.question_title = $question_title, ...,
  q.created_at = datetime(), q.updated_at = datetime()\<close>.
\<close>

definition question_sets :: "nat \<Rightarrow> val \<Rightarrow> val \<Rightarrow> val \<Rightarrow> val \<Rightarrow> val \<Rightarrow> val \<Rightarrow> (string \<times> val) list" where
  "question_sets now title body difficulty step_no sub_step_no sl_no =
     [(''question_title'', title), (''question'', body), (''difficulty'', difficulty),
      (''step_number'', step_no), (''sub_step_number'', sub_step_no),
      (''sequence_number'', sl_no), (''created_at'', VTime now), (''updated_at'', VTime now)]"

definition question_query :: "(string \<times> val) list \<Rightarrow> val \<Rightarrow> graph \<Rightarrow> exn + graph" where
  "question_query sets qid g =
     (case cy_merge_node ''Question'' ''id'' qid g of
        Inl e \<Rightarrow> Inl e
      | Inr g1 \<Rightarrow>
          if settable sets then Inr (cy_update (node_matches ''Question'' ''id'' qid) (set_all sets) g1)
          else Inl StoreError)"

definition create_question_node :: "nat \<Rightarrow> pydict \<Rightarrow> graph \<Rightarrow> exn + graph" where
  "create_question_node now item g =
     ebind (dict_index item ''id'') (\<lambda>qid.
     ebind (dict_index item ''question_title'') (\<lambda>title.
     ebind (dict_index item ''question'') (\<lambda>body.
     ebind (dict_index item ''difficulty'') (\<lambda>difficulty.
     ebind (dict_index item ''step_no'') (\<lambda>step_no.
     ebind (dict_index item ''sub_step_no'') (\<lambda>sub_step_no.
     ebind (dict_index item ''sl_no'') (\<lambda>sl_no.
       question_query (question_sets now title body difficulty step_no sub_step_no sl_no) qid g)))))))"

text \<open>
  The two statements of a loop body in \<open>_create_standard_concepts\<close> and
  \<open>_create_subconcepts\<close>, for the label \<open>l\<close> (\<open>Concept\<close>, \<open>SubConcept\<close>):
  \<^verbatim>\<open>MERGE (c:l {name: $name}) SET c.created_at = coalesce(c.created_at, datetime()),
  c.updated_at = datetime()\<close> and
  \<^verbatim>\<open>MATCH (q:Question {id: $question_id}) MATCH (c:l {name: $name}) MERGE (q)-[:T]->(c)\<close>.
\<close>

definition stamp :: "nat \<Rightarrow> node \<Rightarrow> node" where
  "stamp now n = set_prop ''updated_at'' (VTime now) (set_coalesce ''created_at'' (VTime now) n)"

definition concept_query :: "nat \<Rightarrow> string \<Rightarrow> string \<Rightarrow> graph \<Rightarrow> exn + graph" where
  "concept_query now l name g =
     (case cy_merge_node l ''name'' (VStr name) g of
        Inl e \<Rightarrow> Inl e
      | Inr g1 \<Rightarrow> Inr (cy_update (node_matches l ''name'' (VStr name)) (stamp now) g1))"

definition link_query :: "string \<Rightarrow> val \<Rightarrow> string \<Rightarrow> string \<Rightarrow> graph \<Rightarrow> graph" where
  "link_query ty qid l name g =
     cy_link (node_matches ''Question'' ''id'' qid) ty (node_matches l ''name'' (VStr name)) g"

text \<open>
  The loop \<open>for concept_name in concepts: if concept_name and concept_name.strip(): ...\<close>.
  A truthy element that is not a string has no \<open>strip\<close>.
\<close>

fun link_names :: "nat \<Rightarrow> string \<Rightarrow> string \<Rightarrow> pydict \<Rightarrow> val list \<Rightarrow> graph \<Rightarrow> exn + graph" where
  "link_names now l ty item [] g = Inr g"
| "link_names now l ty item (c # cs) g =
     (if truthy c then
        (case c of
           VStr s \<Rightarrow>
             (if strip s \<noteq> [] then
                (case concept_query now l (strip s) g of
                   Inl e \<Rightarrow> Inl e
                 | Inr g1 \<Rightarrow>
                     (case dict_index item ''id'' of
                        Inl e \<Rightarrow> Inl e
                      | Inr qid \<Rightarrow> link_names now l ty item cs (link_query ty qid l (strip s) g1)))
              else link_names now l ty item cs g)
         | _ \<Rightarrow> Inl AttributeError)
      else link_names now l ty item cs g)"

text \<open>Both functions read the key \<open>sub_concepts\<close> of the item.\<close>

definition create_standard_concepts :: "nat \<Rightarrow> pydict \<Rightarrow> graph \<Rightarrow> exn + graph" where
  "create_standard_concepts now item g =
     (let concepts = dict_get item ''sub_concepts'' (VList []) in
      if \<not> truthy concepts then Inr g
      else ebind (py_iter concepts) (\<lambda>cs. link_names now ''Concept'' ''INVOLVES_CONCEPT'' item cs g))"

definition create_subconcepts :: "nat \<Rightarrow> pydict \<Rightarrow> graph \<Rightarrow> exn + graph" where
  "create_subconcepts now item g =
     (let subconcepts = dict_get item ''sub_concepts'' (VList []) in
      if \<not> truthy subconcepts then Inr g
      else ebind (py_iter subconcepts)
             (\<lambda>cs. link_names now ''SubConcept'' ''INVOLVES_SUBCONCEPT'' item cs g))"

text \<open>
  \<open>_create_solution_approaches\<close>: \<open>approach.get(k, '').strip()\<close> needs a dictionary
  and a string under the key; the statement is
  \<^verbatim>\<open>MERGE (sa:SolutionApproach {name: $approach_name}) SET sa.explanation = $explanation,
  sa.created_at = coalesce(sa.created_at, datetime()), sa.updated_at = datetime()\<close>.
\<close>

definition get_stripped :: "pydict \<Rightarrow> string \<Rightarrow> exn + string" where
  "get_stripped d k = (case dict_get d k (VStr []) of VStr s \<Rightarrow> Inr (strip s) | _ \<Rightarrow> Inl AttributeError)"

definition approach_query :: "nat \<Rightarrow> string \<Rightarrow> string \<Rightarrow> graph \<Rightarrow> exn + graph" where
  "approach_query now name explanation g =
     (case cy_merge_node ''SolutionApproach'' ''name'' (VStr name) g of
        Inl e \<Rightarrow> Inl e
      | Inr g1 \<Rightarrow>
          Inr (cy_update (node_matches ''SolutionApproach'' ''name'' (VStr name))
                 (\<lambda>n. stamp now (set_prop ''explanation'' (VStr explanation) n)) g1))"

fun link_approaches :: "nat \<Rightarrow> pydict \<Rightarrow> val list \<Rightarrow> graph \<Rightarrow> exn + graph" where
  "link_approaches now item [] g = Inr g"
| "link_approaches now item (a # as) g =
     (case a of
        VObj d \<Rightarrow>
          (case get_stripped d ''approach_name'' of
             Inl e \<Rightarrow> Inl e
           | Inr name \<Rightarrow>
               (case get_stripped d ''explanation'' of
                  Inl e \<Rightarrow> Inl e
                | Inr explanation \<Rightarrow>
                    if name \<noteq> [] then
                      (case approach_query now name explanation g of
                         Inl e \<Rightarrow> Inl e
                       | Inr g1 \<Rightarrow>
                           (case dict_index item ''id'' of
                              Inl e \<Rightarrow> Inl e
                            | Inr qid \<Rightarrow>
                                link_approaches now item as
                                  (link_query ''HAS_SOLUTION_APPROACH'' qid ''SolutionApproach'' name g1)))
                    else link_approaches now item as g))
      | _ \<Rightarrow> Inl AttributeError)"

definition create_solution_approaches :: "nat \<Rightarrow> pydict \<Rightarrow> graph \<Rightarrow> exn + graph" where
  "create_solution_approaches now item g =
     (let approaches = dict_get item ''solution_approaches'' (VList []) in
      if \<not> truthy approaches then Inr g
      else ebind (py_iter approaches) (\<lambda>as. link_approaches now item as g))"

text \<open>
  The transaction function: the statements run against the transaction's own view of
  the graph; an exception leaves through \<open>Inl\<close> (it is logged and raised again).
\<close>

definition populate_question_and_concepts_transaction :: "nat \<Rightarrow> pydict \<Rightarrow> graph \<Rightarrow> exn + graph" where
  "populate_question_and_concepts_transaction now item tx =
     ebind (validate_question_data item) (\<lambda>u.
     ebind (create_question_node now item tx) (\<lambda>tx1.
     ebind (create_standard_concepts now item tx1) (\<lambda>tx2.
     ebind (create_subconcepts now item tx2) (\<lambda>tx3.
       create_solution_approaches now item tx3))))"

section \<open>Sessions and transactions (\<open>DatabaseManager\<close>, \<open>BaseRepository\<close>)\<close>

text \<open>
  The database is the committed graph together with the committed states that came
  before it, most recent first: what a reader could have seen, and when.  The
  connection is taken to be initialised.
\<close>

record db =
  committed :: graph
  history :: "graph list"

definition commit :: "graph \<Rightarrow> db \<Rightarrow> db" where
  "commit g d = \<lparr>committed = g, history = committed d # history d\<rparr>"

text \<open>
  A transaction function is called with the transaction handle (the transaction's view
  of the graph) and may also reach the database through sessions of its own.
  \<open>on_tx\<close> is a function that only uses the handle.
\<close>

definition on_tx :: "(graph \<Rightarrow> exn + graph) \<Rightarrow> graph \<Rightarrow> db \<Rightarrow> (exn + graph) \<times> db" where
  "on_tx f tx d = (f tx, d)"

text \<open>
  \<open>DatabaseManager.execute_transaction\<close>: the function runs on a handle opened on the
  committed graph.  When it returns, what it wrote through the handle is committed (a
  handle that wrote nothing commits nothing); when it raises, the handle's writes are
  rolled back and the exception is raised again.  No transaction function of the
  repository writes both through the handle and through sessions of its own.
\<close>

definition execute_transaction ::
  "(graph \<Rightarrow> db \<Rightarrow> (exn + graph) \<times> db) \<Rightarrow> db \<Rightarrow> (exn + unit) \<times> db" where
  "execute_transaction f d =
     (case f (committed d) d of
        (Inl e, d') \<Rightarrow> (Inl e, d')
      | (Inr tx', d') \<Rightarrow> (Inr (), if tx' = committed d then d' else commit tx' d'))"

text \<open>
  \<open>BaseRepository.execute_write_query\<close>: \<open>session.run\<close> outside a transaction commits
  on its own; a failure is wrapped in \<open>DatabaseConnectionError\<close>.
\<close>

definition execute_write_query :: "(graph \<Rightarrow> exn + graph) \<Rightarrow> db \<Rightarrow> (exn + unit) \<times> db" where
  "execute_write_query q d =
     (case q (committed d) of
        Inl e \<Rightarrow> (Inl DatabaseConnectionError, d)
      | Inr g \<Rightarrow> (Inr (), commit g d))"

text \<open>
  The database after \<open>execute_transaction\<close> has run the upsert of one item at the clock
  reading \<open>now\<close>, whether the transaction committed or was rolled back.
\<close>

definition run_upsert :: "nat \<Rightarrow> pydict \<Rightarrow> db \<Rightarrow> db" where
  "run_upsert now item d =
     snd (execute_transaction (on_tx (populate_question_and_concepts_transaction now item)) d)"

section \<open>The batch ingestion pipeline (\<open>DataPopulationService\<close>)\<close>

record batch_stats =
  processed :: nat
  failed :: nat
  failed_ids :: "val list"

text \<open>
  \<open>_process_batch\<close>: one transaction per item; \<open>except Exception\<close> counts the item as
  failed and records \<open>item.get('id', 'N/A')\<close>.  The transaction function is the
  repository's, handed in as \<open>f\<close>.
\<close>

fun process_items ::
  "(pydict \<Rightarrow> graph \<Rightarrow> exn + graph) \<Rightarrow> pydict list \<Rightarrow> batch_stats \<Rightarrow> db \<Rightarrow> batch_stats \<times> db" where
  "process_items f [] st d = (st, d)"
| "process_items f (item # rest) st d =
     (case execute_transaction (on_tx (f item)) d of
        (Inr u, d') \<Rightarrow> process_items f rest (st\<lparr>processed := processed st + 1\<rparr>) d'
      | (Inl e, d') \<Rightarrow>
          process_items f rest
            (st\<lparr>failed := failed st + 1,
                failed_ids := failed_ids st @ [dict_get item ''id'' (VStr ''N/A'')]\<rparr>) d')"

definition process_batch ::
  "(pydict \<Rightarrow> graph \<Rightarrow> exn + graph) \<Rightarrow> pydict list \<Rightarrow> db \<Rightarrow> batch_stats \<times> db" where
  "process_batch f batch d = process_items f batch \<lparr>processed = 0, failed = 0, failed_ids = []\<rparr> d"

record validation_result =
  vr_valid_items :: "pydict list"
  vr_invalid_items :: "pydict list"
  vr_invalid_item_ids :: "val list"

text \<open>
  \<open>SetupRepository._validate_data_items\<close>: only \<open>DataValidationError\<close> is caught.
\<close>

fun validate_items :: "pydict list \<Rightarrow> validation_result \<Rightarrow> exn + validation_result" where
  "validate_items [] r = Inr r"
| "validate_items (item # rest) r =
     (case validate_question_data item of
        Inr u \<Rightarrow> validate_items rest (r\<lparr>vr_valid_items := vr_valid_items r @ [item]\<rparr>)
      | Inl (DataValidationError m) \<Rightarrow>
          validate_items rest
            (r\<lparr>vr_invalid_items := vr_invalid_items r @ [item],
               vr_invalid_item_ids := vr_invalid_item_ids r @ [dict_get item ''id'' (VStr ''N/A'')]\<rparr>)
      | Inl e \<Rightarrow> Inl e)"

definition validate_data_items :: "pydict list \<Rightarrow> exn + validation_result" where
  "validate_data_items data =
     validate_items data \<lparr>vr_valid_items = [], vr_invalid_items = [], vr_invalid_item_ids = []\<rparr>"

record report =
  total_items :: nat
  processed_items :: nat
  failed_items :: nat
  invalid_items :: nat
  failed_item_ids :: "val list"
  invalid_item_ids :: "val list"

text \<open>
  The loop \<open>for i in range(0, len(valid_data), batch_size)\<close> with the slice
  \<open>valid_data[i:i + batch_size]\<close>.  A negative step gives an empty range; a zero step
  is refused by \<open>range\<close> before the loop starts (see \<open>process_data_in_batches\<close>).
\<close>

function batches ::
  "(pydict \<Rightarrow> graph \<Rightarrow> exn + graph) \<Rightarrow> pydict list \<Rightarrow> int \<Rightarrow> nat \<Rightarrow> batch_stats \<Rightarrow> db
     \<Rightarrow> batch_stats \<times> db" where
  "batches f valid_data batch_size i acc d =
     (if 0 < batch_size \<and> i < length valid_data then
        (case process_batch f (take (nat batch_size) (drop i valid_data)) d of
           (st, d') \<Rightarrow>
             batches f valid_data batch_size (i + nat batch_size)
               \<lparr>processed = processed acc + processed st,
                failed = failed acc + failed st,
                failed_ids = failed_ids acc @ failed_ids st\<rparr> d')
      else (acc, d))"
  by pat_completeness auto
termination
  by (relation "measure (\<lambda>(f, valid_data, batch_size, i, acc, d). length valid_data - i)") auto

definition process_data_in_batches ::
  "(pydict \<Rightarrow> graph \<Rightarrow> exn + graph) \<Rightarrow> pydict list \<Rightarrow> int \<Rightarrow> db \<Rightarrow> (exn + report) \<times> db" where
  "process_data_in_batches f data batch_size d =
     (case validate_data_items data of
        Inl e \<Rightarrow> (Inl e, d)
      | Inr validation \<Rightarrow>
          if batch_size = 0 then (Inl ValueError, d)
          else
            (case batches f (vr_valid_items validation) batch_size 0
                    \<lparr>processed = 0, failed = 0, failed_ids = []\<rparr> d of
               (st, d') \<Rightarrow>
                 (Inr \<lparr>total_items = length data,
                       processed_items = processed st,
                       failed_items = failed st,
                       invalid_items = length (vr_invalid_items validation),
                       failed_item_ids = failed_ids st,
                       invalid_item_ids = vr_invalid_item_ids validation\<rparr>, d')))"

definition populate_from_data_list ::
  "(pydict \<Rightarrow> graph \<Rightarrow> exn + graph) \<Rightarrow> pydict list \<Rightarrow> int \<Rightarrow> db \<Rightarrow> (exn + report) \<times> db" where
  "populate_from_data_list f data batch_size d = process_data_in_batches f data batch_size d"

text \<open>
  What \<open>open\<close> and \<open>json.load\<close> make of the file at the path: it cannot be read, it is
  not JSON (each with the text of the error), it is not UTF-8, or it parses to a
  value.  \<open>UnicodeDecodeError\<close> is none of the exceptions \<open>_load_json_data\<close> wraps.
\<close>

datatype file_content = Unreadable string | Malformed string | Undecodable | Parsed val

definition load_json_data :: "file_content \<Rightarrow> exn + val list" where
  "load_json_data c =
     (case c of
        Unreadable m \<Rightarrow> Inl (DataValidationError (''Could not read file: '' @ m))
      | Malformed m \<Rightarrow> Inl (DataValidationError (''Invalid JSON format: '' @ m))
      | Undecodable \<Rightarrow> Inl UnicodeDecodeError
      | Parsed v \<Rightarrow>
          (case v of
             VList xs \<Rightarrow> Inr xs
           | _ \<Rightarrow> Inl (DataValidationError ''JSON file must contain an array of objects'')))"

text \<open>
  The pipeline is annotated \<open>List[Dict[str, Any]]\<close> and is modelled on dictionaries.
  An array with an element that is not an object is outside the annotated type; the
  Python then raises from the first operation that needs a dictionary: \<open>TypeError\<close>
  from \<open>field not in item\<close> on a number, a boolean or null, \<open>AttributeError\<close> from
  \<open>item.get\<close> on a string or a list (on these \<open>in\<close> is defined, and finds a field
  missing unless the element holds every required field name).  The model reports
  the exception of the first such element.  It does not follow a string or a list
  that holds every required field name into the batch loop, where the same
  \<open>AttributeError\<close> comes from \<open>_process_batch\<close>, and it does not trace the items the
  Python may have processed before the exception.
\<close>

fun as_items :: "val list \<Rightarrow> exn + pydict list" where
  "as_items [] = Inr []"
| "as_items (VObj d # vs) = (case as_items vs of Inl e \<Rightarrow> Inl e | Inr ds \<Rightarrow> Inr (d # ds))"
| "as_items (VStr s # vs) = Inl AttributeError"
| "as_items (VList xs # vs) = Inl AttributeError"
| "as_items (v # vs) = Inl TypeError"

text \<open>\<open>populate_from_json_file\<close>; \<open>file = None\<close> when no file exists at the path.\<close>

definition populate_from_json_file ::
  "(pydict \<Rightarrow> graph \<Rightarrow> exn + graph) \<Rightarrow> file_content option \<Rightarrow> int \<Rightarrow> db \<Rightarrow> (exn + report) \<times> db" where
  "populate_from_json_file f file batch_size d =
     (case file of
        None \<Rightarrow> (Inl FileNotFoundError, d)
      | Some c \<Rightarrow>
          (case load_json_data c of
             Inl e \<Rightarrow> (Inl e, d)
           | Inr data \<Rightarrow>
               (case as_items data of
                  Inl e \<Rightarrow> (Inl e, d)
                | Inr items \<Rightarrow> process_data_in_batches f items batch_size d)))"

section \<open>The curriculum query layer (\<open>QuestionRepository\<close>)\<close>

text \<open>
  The \<open>RETURN\<close> clause shared by the question queries: one row per question node, a
  dictionary from column name to value.  The columns read the properties \<open>title\<close>,
  \<open>content\<close> and \<open>substep_number\<close>.
\<close>

definition question_row :: "node \<Rightarrow> pydict" where
  "question_row q =
     [(''id'', node_prop q ''id''), (''title'', node_prop q ''title''),
      (''content'', node_prop q ''content''), (''difficulty'', node_prop q ''difficulty''),
      (''step_number'', node_prop q ''step_number''),
      (''sub_step_number'', node_prop q ''substep_number''),
      (''sequence_number'', node_prop q ''sequence_number''),
      (''standard_concepts'', node_prop q ''standard_concepts''),
      (''sub_concepts'', node_prop q ''sub_concepts''),
      (''solution_approaches'', node_prop q ''solution_approaches'')]"

text \<open>
  \<open>ORDER BY ... ASC\<close>: Cypher orders values of different kinds by kind (lists, then
  temporal values, strings, booleans and numbers) and puts null last.  The key is the
  kind and the value within the kind; lists are ordered by kind only.  Rows with equal
  keys, whose order Cypher leaves open, keep their order of storage.
\<close>

fun order_key :: "val \<Rightarrow> nat \<times> int \<times> string" where
  "order_key (VObj kvs) = (0, 0, [])"
| "order_key (VList xs) = (1, 0, [])"
| "order_key (VTime t) = (2, int t, [])"
| "order_key (VStr s) = (3, 0, s)"
| "order_key (VBool b) = (4, (if b then 1 else 0), [])"
| "order_key (VNum n) = (5, n, [])"
| "order_key VNull = (6, 0, [])"

definition curriculum_key :: "node \<Rightarrow> (nat \<times> int \<times> string) \<times> (nat \<times> int \<times> string) \<times> (nat \<times> int \<times> string)" where
  "curriculum_key q =
     (order_key (node_prop q ''step_number''), order_key (node_prop q ''substep_number''),
      order_key (node_prop q ''sequence_number''))"

text \<open>
  \<open>NOT EXISTS { MATCH (s:Student {student_id: $student_id})-[:MASTERED]->(q) }\<close> for the
  node \<open>q\<close> at position \<open>i\<close>.
\<close>

definition mastered_by :: "string \<Rightarrow> graph \<Rightarrow> nat \<Rightarrow> bool" where
  "mastered_by student_id g i =
     list_ex (\<lambda>e. e_type e = ''MASTERED'' \<and> e_dst e = i \<and> e_src e < length (g_nodes g) \<and>
                  node_matches ''Student'' ''student_id'' (VStr student_id) (g_nodes g ! e_src e))
       (g_edges g)"

definition unmastered_ids :: "string \<Rightarrow> graph \<Rightarrow> nat list" where
  "unmastered_ids student_id g =
     filter (\<lambda>i. n_label (g_nodes g ! i) = ''Question'' \<and> \<not> mastered_by student_id g i)
       [0 ..< length (g_nodes g)]"

text \<open>
  \<open>find_unmastered_questions_for_student\<close> returns the rows of \<open>execute_query\<close>; a
  negative \<open>LIMIT\<close> is an error of the store, wrapped by \<open>execute_query\<close>.
\<close>

definition find_unmastered_questions_for_student :: "string \<Rightarrow> int \<Rightarrow> graph \<Rightarrow> exn + pydict list" where
  "find_unmastered_questions_for_student student_id limit g =
     (if limit < 0 then Inl DatabaseConnectionError
      else Inr (map (\<lambda>i. question_row (g_nodes g ! i))
                 (take (nat limit)
                    (sort_key (\<lambda>i. curriculum_key (g_nodes g ! i)) (unmastered_ids student_id g)))))"

record solution_approach =
  sa_name :: val
  sa_explanation :: val

record question =
  q_id :: val
  q_title :: val
  q_content :: val
  q_difficulty :: val
  q_step_number :: val
  q_sub_step_number :: val
  q_sequence_number :: val
  q_standard_concepts :: val
  q_sub_concepts :: val
  q_solution_approaches :: "solution_approach list"

text \<open>
  \<open>_build_question_from_data\<close>: the approaches are rebuilt from the column
  \<open>solution_approaches\<close>, keeping the entries that are dictionaries.
\<close>

fun build_approaches :: "val list \<Rightarrow> solution_approach list" where
  "build_approaches [] = []"
| "build_approaches (VObj d # rest) =
     \<lparr>sa_name = dict_get d ''name'' (VStr []), sa_explanation = dict_get d ''explanation'' (VStr [])\<rparr>
       # build_approaches rest"
| "build_approaches (v # rest) = build_approaches rest"

definition build_question_from_data :: "pydict \<Rightarrow> exn + question" where
  "build_question_from_data data =
     ebind (if truthy (dict_get data ''solution_approaches'' VNull)
            then ebind (dict_index data ''solution_approaches'')
                   (\<lambda>v. ebind (py_iter v) (\<lambda>xs. Inr (build_approaches xs)))
            else Inr []) (\<lambda>solution_approaches.
     ebind (dict_index data ''id'') (\<lambda>i.
     ebind (dict_index data ''title'') (\<lambda>title.
     ebind (dict_index data ''content'') (\<lambda>content.
     ebind (dict_index data ''difficulty'') (\<lambda>difficulty.
     ebind (dict_index data ''step_number'') (\<lambda>step_number.
     ebind (dict_index data ''sub_step_number'') (\<lambda>sub_step_number.
     ebind (dict_index data ''sequence_number'') (\<lambda>sequence_number.
       Inr \<lparr>q_id = i, q_title = title, q_content = content, q_difficulty = difficulty,
            q_step_number = step_number, q_sub_step_number = sub_step_number,
            q_sequence_number = sequence_number,
            q_standard_concepts = dict_get data ''standard_concepts'' (VList []),
            q_sub_concepts = dict_get data ''sub_concepts'' (VList []),
            q_solution_approaches = solution_approaches\<rparr>))))))))"

text \<open>\<open>find_question_by_id\<close>: \<open>MATCH (q:Question {id: $question_id}) RETURN ...\<close>.\<close>

definition find_question_by_id :: "string \<Rightarrow> graph \<Rightarrow> exn + question option" where
  "find_question_by_id question_id g =
     (case map question_row (filter (node_matches ''Question'' ''id'' (VStr question_id)) (g_nodes g)) of
        [] \<Rightarrow> Inr None
      | data # others \<Rightarrow> ebind (build_question_from_data data) (\<lambda>q. Inr (Some q)))"

section \<open>The progress mutation layer (\<open>StudentRepository\<close>, \<open>RecommendationService\<close>)\<close>

text \<open>
  \<^verbatim>\<open>MATCH (s:Student {student_id: $student_id}) MATCH (q:Question {id: $question_id})
  MERGE (s)-[r:T]->(q) SET r.timestamp = datetime(), s.last_active = datetime()\<close>
  for \<open>T\<close> one of \<open>ATTEMPTED\<close> and \<open>MASTERED\<close>.
\<close>

definition mark_query :: "string \<Rightarrow> nat \<Rightarrow> string \<Rightarrow> string \<Rightarrow> graph \<Rightarrow> exn + graph" where
  "mark_query ty now student_id question_id g =
     (let ss = match_ids (node_matches ''Student'' ''student_id'' (VStr student_id)) g;
          qs = match_ids (node_matches ''Question'' ''id'' (VStr question_id)) g;
          g1 = foldl (merge_edge ty) g (List.product ss qs);
          g2 = g1\<lparr>g_edges :=
                 map (\<lambda>e. if e_type e = ty \<and> List.member ss (e_src e) \<and> List.member qs (e_dst e)
                           then e\<lparr>e_props := AList.update ''timestamp'' (VTime now) (e_props e)\<rparr>
                           else e) (g_edges g1)\<rparr>
      in Inr (if qs = [] then g2
              else cy_update (node_matches ''Student'' ''student_id'' (VStr student_id))
                     (set_prop ''last_active'' (VTime now)) g2))"

definition mark_question_as_attempted :: "nat \<Rightarrow> string \<Rightarrow> string \<Rightarrow> db \<Rightarrow> (exn + unit) \<times> db" where
  "mark_question_as_attempted now student_id question_id d =
     execute_write_query (mark_query ''ATTEMPTED'' now student_id question_id) d"

definition mark_question_as_mastered :: "nat \<Rightarrow> string \<Rightarrow> string \<Rightarrow> db \<Rightarrow> (exn + unit) \<times> db" where
  "mark_question_as_mastered now student_id question_id d =
     execute_write_query (mark_query ''MASTERED'' now student_id question_id) d"

text \<open>
  \<^verbatim>\<open>... WITH s, q.sub_concepts AS subconcept_names UNWIND subconcept_names AS subconcept_name
  MATCH (sc:SubConcept {name: subconcept_name}) MERGE (s)-[:MASTERED]->(sc)
  SET s.last_active = datetime()\<close>: unwinding null gives no row.
\<close>

fun unwind :: "val \<Rightarrow> val list" where
  "unwind VNull = []"
| "unwind (VList xs) = xs"
| "unwind v = [v]"

definition subconcepts_query :: "nat \<Rightarrow> string \<Rightarrow> string \<Rightarrow> graph \<Rightarrow> exn + graph" where
  "subconcepts_query now student_id question_id g =
     (let ss = match_ids (node_matches ''Student'' ''student_id'' (VStr student_id)) g;
          qs = match_ids (node_matches ''Question'' ''id'' (VStr question_id)) g;
          names = concat (map (\<lambda>j. unwind (node_prop (g_nodes g ! j) ''sub_concepts'')) qs);
          scs = concat (map (\<lambda>name. match_ids (node_matches ''SubConcept'' ''name'' name) g) names);
          g1 = foldl (merge_edge ''MASTERED'') g (List.product ss scs)
      in Inr (if scs = [] then g1
              else cy_update (node_matches ''Student'' ''student_id'' (VStr student_id))
                     (set_prop ''last_active'' (VTime now)) g1))"

definition mark_subconcepts_as_mastered :: "nat \<Rightarrow> string \<Rightarrow> string \<Rightarrow> db \<Rightarrow> (exn + unit) \<times> db" where
  "mark_subconcepts_as_mastered now student_id question_id d =
     execute_write_query (subconcepts_query now student_id question_id) d"

text \<open>
  \<open>complete_question_transaction\<close> receives the handle \<open>tx\<close> and calls the three
  repository methods, each of which opens a session of its own.
\<close>

definition complete_question_transaction ::
  "nat \<Rightarrow> string \<Rightarrow> string \<Rightarrow> bool \<Rightarrow> graph \<Rightarrow> db \<Rightarrow> (exn + graph) \<times> db" where
  "complete_question_transaction now student_id question_id is_mastered tx d =
     (case mark_question_as_attempted now student_id question_id d of
        (Inl e, d1) \<Rightarrow> (Inl e, d1)
      | (Inr u, d1) \<Rightarrow>
          if is_mastered then
            (case mark_question_as_mastered now student_id question_id d1 of
               (Inl e, d2) \<Rightarrow> (Inl e, d2)
             | (Inr u, d2) \<Rightarrow>
                 (case mark_subconcepts_as_mastered now student_id question_id d2 of
                    (Inl e, d3) \<Rightarrow> (Inl e, d3)
                  | (Inr u, d3) \<Rightarrow> (Inr tx, d3)))
          else (Inr tx, d1))"

definition complete_question :: "nat \<Rightarrow> string \<Rightarrow> string \<Rightarrow> bool \<Rightarrow> db \<Rightarrow> (exn + unit) \<times> db" where
  "complete_question now student_id question_id is_mastered d =
     execute_transaction (complete_question_transaction now student_id question_id is_mastered) d"

text \<open>\<open>create_or_update_student\<close>: \<open>MERGE (s:Student {student_id: $student_id})\<close> and the
  same three assignments on create and on match, \<open>created_at\<close> on create only.\<close>

definition student_query :: "nat \<Rightarrow> string \<Rightarrow> val \<Rightarrow> val \<Rightarrow> graph \<Rightarrow> exn + graph" where
  "student_query now student_id name email g =
     (case cy_merge_node ''Student'' ''student_id'' (VStr student_id) g of
        Inl e \<Rightarrow> Inl e
      | Inr g1 \<Rightarrow>
          if settable [(''name'', name), (''email'', email)] then
            Inr (cy_update (node_matches ''Student'' ''student_id'' (VStr student_id))
                   (\<lambda>n. set_all [(''name'', name), (''email'', email), (''last_active'', VTime now)]
                          (if list_ex (node_matches ''Student'' ''student_id'' (VStr student_id)) (g_nodes g)
                           then n else set_prop ''created_at'' (VTime now) n)) g1)
          else Inl StoreError)"

definition create_or_update_student :: "nat \<Rightarrow> string \<Rightarrow> val \<Rightarrow> val \<Rightarrow> db \<Rightarrow> (exn + unit) \<times> db" where
  "create_or_update_student now student_id name email d =
     execute_write_query (student_query now student_id name email) d"

definition is_array :: "val \<Rightarrow> bool" where
  "is_array v = (case v of VList xs \<Rightarrow> True | _ \<Rightarrow> False)"

text \<open>
  \<open>_validate_item_fields\<close>, the field-level rules.  No function of the repository calls
  it.  \<open>str(v).strip()\<close> of a truthy value is empty only for a string of white space;
  \<open>isinstance(v, (int, float))\<close> also holds for a boolean.
\<close>

definition blank :: "val \<Rightarrow> bool" where
  "blank v = (\<not> truthy v \<or> (case v of VStr s \<Rightarrow> strip s = [] | _ \<Rightarrow> False))"

definition non_negative_number :: "val \<Rightarrow> bool" where
  "non_negative_number v = (case v of VNum n \<Rightarrow> 0 \<le> n | VBool b \<Rightarrow> True | _ \<Rightarrow> False)"

fun show_nat :: "nat \<Rightarrow> string" where
  "show_nat n =
     (if n < 10 then [char_of (48 + n)] else show_nat (n div 10) @ [char_of (48 + n mod 10)])"

fun check_approaches :: "nat \<Rightarrow> val list \<Rightarrow> exn + unit" where
  "check_approaches i [] = Inr ()"
| "check_approaches i (VObj approach # rest) =
     (if \<not> dict_has approach ''approach_name''
      then Inl (DataValidationError
                 (''Solution approach '' @ show_nat i @ '' missing '' @
                    [CHR 0x27] @ ''approach_name'' @ [CHR 0x27]))
      else check_approaches (i + 1) rest)"
| "check_approaches i (v # rest) =
     Inl (DataValidationError (''Solution approach '' @ show_nat i @ '' must be a dictionary''))"

fun first_failing :: "(string \<Rightarrow> bool) \<Rightarrow> string list \<Rightarrow> string option" where
  "first_failing bad [] = None"
| "first_failing bad (field # rest) = (if bad field then Some field else first_failing bad rest)"

definition validate_item_fields :: "pydict \<Rightarrow> exn + unit" where
  "validate_item_fields item =
     (if blank (dict_get item ''id'' VNull) then Inl (DataValidationError ''ID cannot be empty'')
      else
        (case first_failing (\<lambda>field. \<not> non_negative_number (dict_get item field VNull))
                [''step_no'', ''sub_step_no'', ''sl_no''] of
           Some field \<Rightarrow>
             Inl (DataValidationError (''Field '' @ field @ '' must be a non-negative number''))
         | None \<Rightarrow>
             (case first_failing (\<lambda>field. blank (dict_get item field VNull))
                     [''question_title'', ''question''] of
                Some field \<Rightarrow> Inl (DataValidationError (''Field '' @ field @ '' cannot be empty''))
              | None \<Rightarrow>
                  (case first_failing
                          (\<lambda>field. dict_has item field \<and> \<not> is_array (dict_get item field VNull))
                          [''standard_concepts'', ''sub_concepts'', ''solution_approaches''] of
                     Some field \<Rightarrow> Inl (DataValidationError (''Field '' @ field @ '' must be a list''))
                   | None \<Rightarrow>
                       (case map_of item ''solution_approaches'' of
                          Some (VList approaches) \<Rightarrow> check_approaches 0 approaches
                        | _ \<Rightarrow> Inr ())))))"

section \<open>Example data\<close>

definition new_db :: db where
  "new_db = \<lparr>committed = empty_graph, history = []\<rparr>"

text \<open>The item of the specification's scenario.\<close>

definition item_q1 :: pydict where
  "item_q1 =
     [(''id'', VStr ''q1''), (''question_title'', VStr ''T''), (''question'', VStr ''B''),
      (''difficulty'', VStr ''easy''), (''step_no'', VNum 1), (''sub_step_no'', VNum 1),
      (''sl_no'', VNum 1), (''sub_concepts'', VList [VStr ''c1''])]"

text \<open>An item with every required field whose upsert raises: a sub-concept that is a number.\<close>

definition item_q2 :: pydict where
  "item_q2 =
     [(''id'', VStr ''q2''), (''question_title'', VStr ''T2''), (''question'', VStr ''B2''),
      (''difficulty'', VStr ''easy''), (''step_no'', VNum 1), (''sub_step_no'', VNum 1),
      (''sl_no'', VNum 2), (''sub_concepts'', VList [VNum 5])]"

definition item_q3 :: pydict where
  "item_q3 =
     [(''id'', VStr ''q3''), (''question_title'', VStr ''T3''), (''question'', VStr ''B3''),
      (''difficulty'', VStr ''hard''), (''step_no'', VNum 1), (''sub_step_no'', VNum 2),
      (''sl_no'', VNum 1)]"

text \<open>An item without \<open>difficulty\<close> and \<open>sl_no\<close>.\<close>

definition item_q4 :: pydict where
  "item_q4 =
     [(''id'', VStr ''q4''), (''question_title'', VStr ''T4''), (''question'', VStr ''B4''),
      (''step_no'', VNum 2), (''sub_step_no'', VNum 1)]"

text \<open>
  An item with every required field and a title of white space only; it names a
  standard concept, a sub-concept and a solution approach.
\<close>

definition item_q5 :: pydict where
  "item_q5 =
     [(''id'', VStr ''q5''), (''question_title'', VStr ''   ''), (''question'', VStr ''B5''),
      (''difficulty'', VStr ''easy''), (''step_no'', VNum 1), (''sub_step_no'', VNum 2),
      (''sl_no'', VNum 1), (''standard_concepts'', VList [VStr ''Arrays'']),
      (''sub_concepts'', VList [VStr ''c1'']),
      (''solution_approaches'',
         VList [VObj [(''approach_name'', VStr ''A''), (''explanation'', VStr ''E'')]])]"

text \<open>An item that comes before \<open>item_q5\<close> in curriculum order: \<open>(1, 1, 2) < (1, 2, 1)\<close>.\<close>

definition item_q6 :: pydict where
  "item_q6 =
     [(''id'', VStr ''q6''), (''question_title'', VStr ''T6''), (''question'', VStr ''B6''),
      (''difficulty'', VStr ''easy''), (''step_no'', VNum 1), (''sub_step_no'', VNum 1),
      (''sl_no'', VNum 2)]"

text \<open>A database with the question \<open>q1\<close> (and its sub-concept \<open>c1\<close>) and the student \<open>s1\<close>.\<close>

definition db_s1_q1 :: db where
  "db_s1_q1 =
     snd (create_or_update_student 2 ''s1'' (VStr ''Ann'') (VStr ''ann@example.org'')
            (run_upsert 1 item_q1 new_db))"

definition edge_triples :: "graph \<Rightarrow> (nat \<times> string \<times> nat) list" where
  "edge_triples g = map (\<lambda>e. (e_src e, e_type e, e_dst e)) (g_edges g)"

section \<open>The isolation contract, in the words of the specification\<close>

text \<open>
  The specification asks for one independent transaction per valid item, in the order
  of the list: the transaction of an item runs on the graph left by the items before it
  whose transaction committed; when it raises, only its own changes are rolled back
  and the item is recorded as failed.  The three functions below say this without
  batches, sessions or counters: the graph after a list of items, the items that
  failed and the items that were processed.  They are what the pipeline is compared
  with.
\<close>

definition structurally_valid :: "pydict \<Rightarrow> bool" where
  "structurally_valid item = list_all (dict_has item) required_fields"

fun spec_graph :: "(pydict \<Rightarrow> graph \<Rightarrow> exn + graph) \<Rightarrow> pydict list \<Rightarrow> graph \<Rightarrow> graph" where
  "spec_graph f [] g = g"
| "spec_graph f (item # rest) g =
     (case f item g of Inl e \<Rightarrow> spec_graph f rest g | Inr g' \<Rightarrow> spec_graph f rest g')"

fun spec_failed :: "(pydict \<Rightarrow> graph \<Rightarrow> exn + graph) \<Rightarrow> pydict list \<Rightarrow> graph \<Rightarrow> pydict list" where
  "spec_failed f [] g = []"
| "spec_failed f (item # rest) g =
     (case f item g of Inl e \<Rightarrow> item # spec_failed f rest g | Inr g' \<Rightarrow> spec_failed f rest g')"

fun spec_processed :: "(pydict \<Rightarrow> graph \<Rightarrow> exn + graph) \<Rightarrow> pydict list \<Rightarrow> graph \<Rightarrow> pydict list" where
  "spec_processed f [] g = []"
| "spec_processed f (item # rest) g =
     (case f item g of Inl e \<Rightarrow> spec_processed f rest g | Inr g' \<Rightarrow> item # spec_processed f rest g')"

section \<open>Comparing graphs and runs\<close>

text \<open>
  Two graphs are the same up to time when they have the same edges, the same nodes
  with the same labels in the same positions, and every property other than
  \<open>created_at\<close> and \<open>updated_at\<close> reads the same on each node.
\<close>

definition same_modulo_time :: "graph \<Rightarrow> graph \<Rightarrow> bool" where
  "same_modulo_time g g' =
     (g_edges g' = g_edges g \<and>
      map n_label (g_nodes g') = map n_label (g_nodes g) \<and>
      (\<forall>i k. i < length (g_nodes g) \<longrightarrow> k \<noteq> ''created_at'' \<longrightarrow> k \<noteq> ''updated_at'' \<longrightarrow>
             node_prop (g_nodes g' ! i) k = node_prop (g_nodes g ! i) k))"

text \<open>
  The attributes the upsert writes on the question node; a node carries them when it
  holds each of them and the time of the run; the question nodes of a graph.
\<close>

definition item_attributes :: "pydict \<Rightarrow> (string \<times> val) list" where
  "item_attributes item =
     [(''question_title'', dict_get item ''question_title'' VNull),
      (''question'', dict_get item ''question'' VNull),
      (''difficulty'', dict_get item ''difficulty'' VNull),
      (''step_number'', dict_get item ''step_no'' VNull),
      (''sub_step_number'', dict_get item ''sub_step_no'' VNull),
      (''sequence_number'', dict_get item ''sl_no'' VNull)]"

definition carries :: "nat \<Rightarrow> pydict \<Rightarrow> node \<Rightarrow> bool" where
  "carries now item n =
     (node_prop n ''updated_at'' = VTime now \<and>
      list_all (\<lambda>kv. node_prop n (fst kv) = snd kv) (item_attributes item))"

definition questions :: "graph \<Rightarrow> node list" where
  "questions g = filter (\<lambda>n. n_label n = ''Question'') (g_nodes g)"

text \<open>
  The rest of this section serves the proof of idempotence.  \<open>upsert_node\<close> is a
  \<open>MERGE\<close> of a node followed by a \<open>SET\<close> on the nodes it binds; an update \<open>u\<close>
  \<open>writes w\<close> when, the two timestamps apart, it sets exactly the properties of \<open>w\<close>
  (never \<open>id\<close> or \<open>name\<close>) and keeps the label.
\<close>

definition upsert_node :: "string \<Rightarrow> string \<Rightarrow> val \<Rightarrow> (node \<Rightarrow> node) \<Rightarrow> graph \<Rightarrow> graph" where
  "upsert_node l k v u g =
     cy_update (node_matches l k v) u
       (if list_ex (node_matches l k v) (g_nodes g) then g
        else g\<lparr>g_nodes := g_nodes g @ [\<lparr>n_label = l, n_props = [(k, v)]\<rparr>]\<rparr>)"

definition writes :: "(string \<Rightarrow> val option) \<Rightarrow> (node \<Rightarrow> node) \<Rightarrow> bool" where
  "writes w u =
     (w ''id'' = None \<and> w ''name'' = None \<and>
      (\<forall>n. n_label (u n) = n_label n \<and>
           (\<forall>k. k \<noteq> ''created_at'' \<longrightarrow> k \<noteq> ''updated_at'' \<longrightarrow>
                node_prop (u n) k = (case w k of None \<Rightarrow> node_prop n k | Some v \<Rightarrow> v))))"

definition ident :: "node \<Rightarrow> string \<times> val \<times> val" where
  "ident n = (n_label n, node_prop n ''id'', node_prop n ''name'')"

definition key_name :: "string \<Rightarrow> bool" where
  "key_name k = (k = ''id'' \<or> k = ''name'')"

text \<open>
  \<open>ext h g1\<close>: the first run leads from \<open>h\<close> to \<open>g1\<close> by merges only, so the nodes
  of \<open>h\<close> keep their identity and no node added later matches a pattern that a node
  of \<open>h\<close> matches.  \<open>sim h h' g1\<close>: the second run, now at \<open>h'\<close>, has the shape of \<open>g1\<close>,
  and each property is the one of \<open>g1\<close> or the one the first run had at \<open>h\<close>.
\<close>

definition ext :: "graph \<Rightarrow> graph \<Rightarrow> bool" where
  "ext h g1 =
     (length (g_nodes h) \<le> length (g_nodes g1) \<and>
      (\<forall>i. i < length (g_nodes h) \<longrightarrow> ident (g_nodes g1 ! i) = ident (g_nodes h ! i)) \<and>
      set (g_edges h) \<subseteq> set (g_edges g1) \<and>
      (\<forall>l k v i j. key_name k \<longrightarrow> i < length (g_nodes h) \<longrightarrow> length (g_nodes h) \<le> j \<longrightarrow>
            j < length (g_nodes g1) \<longrightarrow> node_matches l k v (g_nodes g1 ! i) \<longrightarrow>
            \<not> node_matches l k v (g_nodes g1 ! j)))"

definition sim :: "graph \<Rightarrow> graph \<Rightarrow> graph \<Rightarrow> bool" where
  "sim h h' g1 =
     (g_edges h' = g_edges g1 \<and> length (g_nodes h') = length (g_nodes g1) \<and>
      (\<forall>i. i < length (g_nodes g1) \<longrightarrow> ident (g_nodes h' ! i) = ident (g_nodes g1 ! i)) \<and>
      (\<forall>i k. i < length (g_nodes g1) \<longrightarrow> k \<noteq> ''created_at'' \<longrightarrow> k \<noteq> ''updated_at'' \<longrightarrow>
           node_prop (g_nodes h' ! i) k = node_prop (g_nodes g1 ! i) k \<or>
           (i < length (g_nodes h) \<and> node_prop (g_nodes h' ! i) k = node_prop (g_nodes h ! i) k)))"

text \<open>
  Two runs of the same statements: the first from \<open>h\<close> to \<open>g1\<close>, the second from \<open>h'\<close>
  to \<open>g2\<close>, with updates that write the same properties.
\<close>

inductive twin :: "graph \<Rightarrow> graph \<Rightarrow> graph \<Rightarrow> graph \<Rightarrow> bool" for g1 g2 where
  twin_done: "twin g1 g2 g1 g2"
| twin_step:
    "writes w u1 \<Longrightarrow> writes w u2 \<Longrightarrow> key_name k \<Longrightarrow> v \<noteq> VNull \<Longrightarrow>
     twin g1 g2 (upsert_node l k v u1 h) (upsert_node l k v u2 h') \<Longrightarrow> twin g1 g2 h h'"
| twin_link:
    "key_name kq \<Longrightarrow> key_name k \<Longrightarrow> list_ex (node_matches lq kq vq) (g_nodes h) \<Longrightarrow>
     list_ex (node_matches l k v) (g_nodes h) \<Longrightarrow>
     twin g1 g2 (cy_link (node_matches lq kq vq) ty (node_matches l k v) h)
                (cy_link (node_matches lq kq vq) ty (node_matches l k v) h') \<Longrightarrow>
     twin g1 g2 h h'"

definition follows :: "graph \<Rightarrow> graph \<Rightarrow> graph \<Rightarrow> graph \<Rightarrow> bool" where
  "follows h h' hA hB = (\<forall>g1 g2. twin g1 g2 hA hB \<longrightarrow> twin g1 g2 h h')"

section \<open>The batch pipeline: counting and isolation\<close>

lemma process_items_counts:
  "process_items f batch st d = (st', d') \<Longrightarrow> length (failed_ids st) = failed st \<Longrightarrow>
     processed st' + failed st' = processed st + failed st + length batch \<and>
     length (failed_ids st') = failed st'"
proof (induction batch arbitrary: st d)
  case Nil
  then show ?case by simp
next
  case (Cons item rest)
  show ?case
  proof (cases "execute_transaction (on_tx (f item)) d")
    case (Pair r d1)
    show ?thesis
    proof (cases r)
      case (Inl e)
      with Pair Cons.prems
      have "process_items f rest
              (st\<lparr>failed := failed st + 1,
                  failed_ids := failed_ids st @ [dict_get item ''id'' (VStr ''N/A'')]\<rparr>) d1 = (st', d')"
        by simp
      from Cons.IH [OF this] Cons.prems(2) show ?thesis by simp
    next
      case (Inr u)
      with Pair Cons.prems
      have "process_items f rest (st\<lparr>processed := processed st + 1\<rparr>) d1 = (st', d')"
        by simp
      from Cons.IH [OF this] Cons.prems(2) show ?thesis by simp
    qed
  qed
qed

lemma process_batch_counts:
  "process_batch f batch d = (st, d') \<Longrightarrow>
     processed st + failed st = length batch \<and> length (failed_ids st) = failed st"
  using process_items_counts [of f batch "\<lparr>processed = 0, failed = 0, failed_ids = []\<rparr>" d st d']
  by (simp add: process_batch_def)

lemma validate_question_data_cases:
  "validate_question_data item = Inr () \<or>
   validate_question_data item = Inl (DataValidationError (missing_message (missing_fields item)))"
  by (simp add: validate_question_data_def)

lemma validate_items_total:
  "\<exists>r'. validate_items data r = Inr r' \<and>
     length (vr_valid_items r') + length (vr_invalid_items r') =
       length (vr_valid_items r) + length (vr_invalid_items r) + length data \<and>
     length (vr_invalid_item_ids r') - length (vr_invalid_items r') =
       length (vr_invalid_item_ids r) - length (vr_invalid_items r) \<and>
     length (vr_invalid_items r') - length (vr_invalid_item_ids r') =
       length (vr_invalid_items r) - length (vr_invalid_item_ids r)"
proof (induction data arbitrary: r)
  case Nil
  then show ?case by simp
next
  case (Cons item rest)
  from validate_question_data_cases [of item] show ?case
  proof
    assume v: "validate_question_data item = Inr ()"
    from Cons.IH [of "r\<lparr>vr_valid_items := vr_valid_items r @ [item]\<rparr>"] v
    show ?thesis by auto
  next
    assume v: "validate_question_data item =
                 Inl (DataValidationError (missing_message (missing_fields item)))"
    from Cons.IH [of "r\<lparr>vr_invalid_items := vr_invalid_items r @ [item],
               vr_invalid_item_ids := vr_invalid_item_ids r @ [dict_get item ''id'' (VStr ''N/A'')]\<rparr>"] v
    show ?thesis by auto
  qed
qed

lemma validate_data_items_total:
  "\<exists>r. validate_data_items data = Inr r \<and>
     length (vr_valid_items r) + length (vr_invalid_items r) = length data \<and>
     length (vr_invalid_item_ids r) = length (vr_invalid_items r)"
proof -
  from validate_items_total [of data "\<lparr>vr_valid_items = [], vr_invalid_items = [], vr_invalid_item_ids = []\<rparr>"]
  obtain r where r: "validate_data_items data = Inr r"
    and a: "length (vr_valid_items r) + length (vr_invalid_items r) = length data"
    and b: "length (vr_invalid_item_ids r) - length (vr_invalid_items r) = 0"
    and c: "length (vr_invalid_items r) - length (vr_invalid_item_ids r) = 0"
    by (auto simp: validate_data_items_def)
  from b c have "length (vr_invalid_item_ids r) = length (vr_invalid_items r)" by arith
  with r a show ?thesis by blast
qed

lemma batches_counts:
  "0 < batch_size \<Longrightarrow> i \<le> length valid_data \<Longrightarrow> length (failed_ids acc) = failed acc \<Longrightarrow>
   batches f valid_data batch_size i acc d = (st, d') \<Longrightarrow>
     processed st + failed st = processed acc + failed acc + (length valid_data - i) \<and>
     length (failed_ids st) = failed st"
proof (induction "length valid_data - i" arbitrary: i acc d rule: less_induct)
  case less
  show ?case
  proof (cases "i < length valid_data")
    case False
    with less.prems show ?thesis by simp
  next
    case True
    obtain s1 d1 where pb: "process_batch f (take (nat batch_size) (drop i valid_data)) d = (s1, d1)"
      by (cases "process_batch f (take (nat batch_size) (drop i valid_data)) d") auto
    let ?acc = "\<lparr>processed = processed acc + processed s1, failed = failed acc + failed s1,
                 failed_ids = failed_ids acc @ failed_ids s1\<rparr>"
    from process_batch_counts [OF pb]
    have c1: "processed s1 + failed s1 = min (nat batch_size) (length valid_data - i)"
      and c2: "length (failed_ids s1) = failed s1" by auto
    have rec: "batches f valid_data batch_size (i + nat batch_size) ?acc d1 = (st, d')"
      using less.prems True pb by (subst (asm) batches.simps) simp
    have acc: "length (failed_ids ?acc) = failed ?acc"
      using c2 less.prems(3) by simp
    show ?thesis
    proof (cases "i + nat batch_size \<le> length valid_data")
      case le: True
      have "length valid_data - (i + nat batch_size) < length valid_data - i"
        using True less.prems(1) by auto
      from less.hyps [OF this less.prems(1) le acc rec]
      show ?thesis using c1 le less.prems(1) by auto
    next
      case gt: False
      from gt less.prems(1) have "st = ?acc"
        using rec by (subst (asm) batches.simps) simp
      with c1 c2 gt True less.prems(3) show ?thesis by auto
    qed
  qed
qed

text \<open>
  The pipeline against the contract.  One transaction either leaves the database as it
  was or commits the graph the transaction function returned; from there the item
  loop, one batch, the loop over the batches and the whole pipeline are the three
  functions of the contract, whatever the batch size, as long as it is positive.
\<close>

lemma run_one:
  "execute_transaction (on_tx (f item)) d =
     (case f item (committed d) of
        Inl e \<Rightarrow> (Inl e, d)
      | Inr g \<Rightarrow> (Inr (), if g = committed d then d else commit g d))"
  by (simp add: execute_transaction_def on_tx_def split: sum.splits)

lemma committed_run_one:
  "committed (snd (execute_transaction (on_tx (f item)) d)) =
     (case f item (committed d) of Inl e \<Rightarrow> committed d | Inr g \<Rightarrow> g)"
  by (simp add: run_one commit_def split: sum.splits)

lemma process_items_spec:
  "process_items f items st d = (st', d') \<Longrightarrow>
     processed st' = processed st + length (spec_processed f items (committed d)) \<and>
     failed st' = failed st + length (spec_failed f items (committed d)) \<and>
     failed_ids st' =
       failed_ids st @ map (\<lambda>item. dict_get item ''id'' (VStr ''N/A'')) (spec_failed f items (committed d)) \<and>
     committed d' = spec_graph f items (committed d)"
proof (induction items arbitrary: st d)
  case Nil
  then show ?case by simp
next
  case (Cons item rest)
  show ?case
  proof (cases "f item (committed d)")
    case (Inl e)
    with Cons.prems
    have "process_items f rest
            (st\<lparr>failed := failed st + 1,
                failed_ids := failed_ids st @ [dict_get item ''id'' (VStr ''N/A'')]\<rparr>) d = (st', d')"
      by (simp add: run_one)
    from Cons.IH [OF this] Inl show ?thesis by simp
  next
    case (Inr g)
    let ?d = "if g = committed d then d else commit g d"
    from Inr Cons.prems
    have "process_items f rest (st\<lparr>processed := processed st + 1\<rparr>) ?d = (st', d')"
      by (simp add: run_one)
    moreover have "committed ?d = g" by (simp add: commit_def)
    ultimately show ?thesis using Cons.IH [of "st\<lparr>processed := processed st + 1\<rparr>" ?d] Inr
      by simp
  qed
qed

lemma process_batch_spec:
  "process_batch f batch d = (st, d') \<Longrightarrow>
     processed st = length (spec_processed f batch (committed d)) \<and>
     failed st = length (spec_failed f batch (committed d)) \<and>
     failed_ids st = map (\<lambda>item. dict_get item ''id'' (VStr ''N/A'')) (spec_failed f batch (committed d)) \<and>
     committed d' = spec_graph f batch (committed d)"
  using process_items_spec [of f batch "\<lparr>processed = 0, failed = 0, failed_ids = []\<rparr>" d st d']
  by (simp add: process_batch_def)

lemma spec_graph_append:
  "spec_graph f (xs @ ys) g = spec_graph f ys (spec_graph f xs g)"
  by (induction xs arbitrary: g) (simp_all split: sum.splits)

lemma spec_failed_append:
  "spec_failed f (xs @ ys) g = spec_failed f xs g @ spec_failed f ys (spec_graph f xs g)"
  by (induction xs arbitrary: g) (simp_all split: sum.splits)

lemma spec_processed_append:
  "spec_processed f (xs @ ys) g = spec_processed f xs g @ spec_processed f ys (spec_graph f xs g)"
  by (induction xs arbitrary: g) (simp_all split: sum.splits)

lemma batches_spec:
  "0 < batch_size \<Longrightarrow> i \<le> length valid_data \<Longrightarrow>
   batches f valid_data batch_size i acc d = (st, d') \<Longrightarrow>
     processed st = processed acc + length (spec_processed f (drop i valid_data) (committed d)) \<and>
     failed st = failed acc + length (spec_failed f (drop i valid_data) (committed d)) \<and>
     failed_ids st =
       failed_ids acc @
         map (\<lambda>item. dict_get item ''id'' (VStr ''N/A'')) (spec_failed f (drop i valid_data) (committed d)) \<and>
     committed d' = spec_graph f (drop i valid_data) (committed d)"
proof (induction "length valid_data - i" arbitrary: i acc d rule: less_induct)
  case less
  show ?case
  proof (cases "i < length valid_data")
    case False
    with less.prems show ?thesis by simp
  next
    case True
    let ?b = "take (nat batch_size) (drop i valid_data)"
    obtain s1 d1 where pb: "process_batch f ?b d = (s1, d1)"
      by (cases "process_batch f ?b d") auto
    let ?acc = "\<lparr>processed = processed acc + processed s1, failed = failed acc + failed s1,
                 failed_ids = failed_ids acc @ failed_ids s1\<rparr>"
    note b = process_batch_spec [OF pb]
    have rec: "batches f valid_data batch_size (i + nat batch_size) ?acc d1 = (st, d')"
      using less.prems True pb by (subst (asm) batches.simps) simp
    have split: "drop i valid_data = ?b @ drop (i + nat batch_size) valid_data"
      by (simp add: add.commute [of i] flip: drop_drop)
    show ?thesis
    proof (cases "i + nat batch_size \<le> length valid_data")
      case le: True
      have "length valid_data - (i + nat batch_size) < length valid_data - i"
        using True less.prems(1) by auto
      from less.hyps [OF this less.prems(1) le rec] b
      show ?thesis
        by (subst (1 2 3 4) split)
           (simp add: spec_processed_append spec_failed_append spec_graph_append)
    next
      case gt: False
      from gt less.prems(1) have st: "st = ?acc" "d' = d1"
        using rec by (subst (asm) batches.simps, simp)+
      from gt have "drop (i + nat batch_size) valid_data = []" by simp
      with split have "drop i valid_data = ?b" by simp
      with st b show ?thesis by simp
    qed
  qed
qed

lemma structurally_valid_iff: "structurally_valid item = (missing_fields item = [])"
  by (auto simp: structurally_valid_def missing_fields_def list_all_iff filter_empty_conv)

lemma validate_items_spec:
  "validate_items data r =
     Inr \<lparr>vr_valid_items = vr_valid_items r @ filter structurally_valid data,
          vr_invalid_items = vr_invalid_items r @ filter (\<lambda>item. \<not> structurally_valid item) data,
          vr_invalid_item_ids =
            vr_invalid_item_ids r @
              map (\<lambda>item. dict_get item ''id'' (VStr ''N/A''))
                (filter (\<lambda>item. \<not> structurally_valid item) data)\<rparr>"
proof (induction data arbitrary: r)
  case Nil
  show ?case by simp
next
  case (Cons item rest)
  show ?case
    by (cases "missing_fields item = []")
       (simp_all add: Cons.IH validate_question_data_def structurally_valid_iff)
qed

lemma validate_data_items_spec:
  "validate_data_items data =
     Inr \<lparr>vr_valid_items = filter structurally_valid data,
          vr_invalid_items = filter (\<lambda>item. \<not> structurally_valid item) data,
          vr_invalid_item_ids =
            map (\<lambda>item. dict_get item ''id'' (VStr ''N/A''))
              (filter (\<lambda>item. \<not> structurally_valid item) data)\<rparr>"
  by (simp add: validate_data_items_def validate_items_spec)

lemma pipeline_spec:
  assumes "0 < batch_size"
  shows "\<exists>r d'. process_data_in_batches f data batch_size d = (Inr r, d') \<and>
           total_items r = length data \<and>
           invalid_items r = length (filter (\<lambda>item. \<not> structurally_valid item) data) \<and>
           processed_items r = length (spec_processed f (filter structurally_valid data) (committed d)) \<and>
           failed_items r = length (spec_failed f (filter structurally_valid data) (committed d)) \<and>
           failed_item_ids r =
             map (\<lambda>item. dict_get item ''id'' (VStr ''N/A''))
               (spec_failed f (filter structurally_valid data) (committed d)) \<and>
           committed d' = spec_graph f (filter structurally_valid data) (committed d)"
proof -
  let ?v = "filter structurally_valid data"
  obtain st d' where bt: "batches f ?v batch_size 0 \<lparr>processed = 0, failed = 0, failed_ids = []\<rparr> d = (st, d')"
    by (cases "batches f ?v batch_size 0 \<lparr>processed = 0, failed = 0, failed_ids = []\<rparr> d") auto
  from batches_spec [OF assms _ bt] assms bt show ?thesis
    by (simp add: process_data_in_batches_def validate_data_items_spec)
qed

lemma spec_isolation:
  assumes "f k (spec_graph f pre g) = Inl e"
  shows "spec_failed f (pre @ k # post) g =
           spec_failed f pre g @ k # spec_failed f post (spec_graph f pre g) \<and>
         spec_processed f (pre @ k # post) g = spec_processed f (pre @ post) g \<and>
         spec_graph f (pre @ k # post) g = spec_graph f (pre @ post) g"
  using assms by (simp add: spec_failed_append spec_processed_append spec_graph_append)

text \<open>
  A batch size below one runs no transaction at all: the report, or the
  \<open>ValueError\<close> of \<open>range\<close>, is the same for every transaction function and the
  database is left as it was.  So a transaction can only raise under a positive batch
  size.
\<close>

lemma no_batch_no_transaction:
  assumes "batch_size \<le> 0"
  shows "process_data_in_batches f data batch_size d = process_data_in_batches f' data batch_size d \<and>
         snd (process_data_in_batches f data batch_size d) = d"
  using assms by (simp add: process_data_in_batches_def split: sum.splits)

text \<open>
  Claim C1.  Let the transaction of item \<open>k\<close> raise on the graph that the items before
  it have left.  Then \<open>_process_batch\<close> on a batch holding \<open>k\<close> returns its statistics, and
  so does the pipeline (for a positive batch size, the only one under which a
  transaction is run) on a list whose structurally valid items are those before \<open>k\<close>,
  \<open>k\<close> and those after \<open>k\<close>; no exception leaves either of them.  The identifier of \<open>k\<close> is
  in the failed list, between the failures before it and the failures after it, and
  the failed count is the length of that list.  Every other item is run, in order, on
  the graph left by the ones before it that committed: the processed count is the
  number of items other than \<open>k\<close> whose own transaction succeeds, processed and failed
  add up to the number of items, and the committed graph is the one the other items
  produce without \<open>k\<close>.
\<close>

theorem failing_item_is_isolated:
  assumes k: "f k (spec_graph f pre (committed d)) = Inl e"
  shows "(\<exists>st d'. process_batch f (pre @ k # post) d = (st, d') \<and>
            failed_ids st =
              map (\<lambda>item. dict_get item ''id'' (VStr ''N/A'')) (spec_failed f pre (committed d)) @
              dict_get k ''id'' (VStr ''N/A'') #
              map (\<lambda>item. dict_get item ''id'' (VStr ''N/A''))
                (spec_failed f post (spec_graph f pre (committed d))) \<and>
            failed st = length (failed_ids st) \<and>
            processed st = length (spec_processed f (pre @ post) (committed d)) \<and>
            processed st + failed st = length (pre @ k # post) \<and>
            committed d' = spec_graph f (pre @ post) (committed d)) \<and>
         (0 < batch_size \<longrightarrow> filter structurally_valid data = pre @ k # post \<longrightarrow>
            (\<exists>r d'. process_data_in_batches f data batch_size d = (Inr r, d') \<and>
               failed_item_ids r =
                 map (\<lambda>item. dict_get item ''id'' (VStr ''N/A'')) (spec_failed f pre (committed d)) @
                 dict_get k ''id'' (VStr ''N/A'') #
                 map (\<lambda>item. dict_get item ''id'' (VStr ''N/A''))
                   (spec_failed f post (spec_graph f pre (committed d))) \<and>
               failed_items r = length (failed_item_ids r) \<and>
               processed_items r = length (spec_processed f (pre @ post) (committed d)) \<and>
               processed_items r + failed_items r = length (pre @ k # post) \<and>
               committed d' = spec_graph f (pre @ post) (committed d)))"
proof -
  let ?g = "committed d"
  let ?all = "pre @ k # post"
  note iso = spec_isolation [where f = f and k = k and pre = pre and g = "committed d" and post = post, OF k]
  have count: "length (spec_processed f xs g) + length (spec_failed f xs g) = length xs" for xs g
    by (induction xs arbitrary: g) (simp_all split: sum.splits)
  have batch: "\<exists>st d'. process_batch f ?all d = (st, d') \<and>
            failed_ids st =
              map (\<lambda>item. dict_get item ''id'' (VStr ''N/A'')) (spec_failed f pre ?g) @
              dict_get k ''id'' (VStr ''N/A'') #
              map (\<lambda>item. dict_get item ''id'' (VStr ''N/A'')) (spec_failed f post (spec_graph f pre ?g)) \<and>
            failed st = length (failed_ids st) \<and>
            processed st = length (spec_processed f (pre @ post) ?g) \<and>
            processed st + failed st = length ?all \<and>
            committed d' = spec_graph f (pre @ post) ?g"
  proof -
    obtain st d' where p: "process_batch f ?all d = (st, d')"
      by (cases "process_batch f ?all d") auto
    from process_batch_spec [OF p] iso count [of ?all ?g] p show ?thesis by simp
  qed
  have pipe: "\<exists>r d'. process_data_in_batches f data batch_size d = (Inr r, d') \<and>
               failed_item_ids r =
                 map (\<lambda>item. dict_get item ''id'' (VStr ''N/A'')) (spec_failed f pre ?g) @
                 dict_get k ''id'' (VStr ''N/A'') #
                 map (\<lambda>item. dict_get item ''id'' (VStr ''N/A'')) (spec_failed f post (spec_graph f pre ?g)) \<and>
               failed_items r = length (failed_item_ids r) \<and>
               processed_items r = length (spec_processed f (pre @ post) ?g) \<and>
               processed_items r + failed_items r = length ?all \<and>
               committed d' = spec_graph f (pre @ post) ?g"
    if b: "0 < batch_size" and v: "filter structurally_valid data = ?all"
  proof -
    from pipeline_spec [OF b, of f data d] obtain r d' where
      r: "process_data_in_batches f data batch_size d = (Inr r, d')"
      and p: "processed_items r = length (spec_processed f (filter structurally_valid data) ?g)"
      and fl: "failed_items r = length (spec_failed f (filter structurally_valid data) ?g)"
      and fi: "failed_item_ids r =
             map (\<lambda>item. dict_get item ''id'' (VStr ''N/A''))
               (spec_failed f (filter structurally_valid data) ?g)"
      and c: "committed d' = spec_graph f (filter structurally_valid data) ?g"
      by blast
    from r p fl fi c iso count [of ?all ?g] show ?thesis
      unfolding v by simp
  qed
  from batch pipe show ?thesis by blast
qed

theorem failing_item_is_isolated_witness:
  "populate_question_and_concepts_transaction 1 item_q2
     (spec_graph (populate_question_and_concepts_transaction 1) [item_q1] (committed new_db)) =
     Inl AttributeError \<and>
   (0::int) < 2 \<and>
   filter structurally_valid [item_q1, item_q2, item_q3, item_q4] = [item_q1] @ item_q2 # [item_q3] \<and>
   (\<exists>r d'. process_data_in_batches (populate_question_and_concepts_transaction 1)
              [item_q1, item_q2, item_q3, item_q4] 2 new_db = (Inr r, d') \<and>
      failed_item_ids r = [VStr ''q2''] \<and> failed_items r = 1 \<and> processed_items r = 2 \<and>
      map (\<lambda>n. (n_label n, node_prop n ''id'', node_prop n ''name'')) (g_nodes (committed d')) =
        [(''Question'', VStr ''q1'', VNull), (''Concept'', VNull, VStr ''c1''),
         (''SubConcept'', VNull, VStr ''c1''), (''Question'', VStr ''q3'', VNull)] \<and>
      edge_triples (committed d') =
        [(0, ''INVOLVES_CONCEPT'', 1), (0, ''INVOLVES_SUBCONCEPT'', 2)])"
proof -
  let ?f = "populate_question_and_concepts_transaction 1"
  let ?g = "committed new_db"
  have k: "?f item_q2 (spec_graph ?f [item_q1] ?g) = Inl AttributeError" by code_simp
  have b: "(0::int) < 2" by simp
  have v: "filter structurally_valid [item_q1, item_q2, item_q3, item_q4] = [item_q1] @ item_q2 # [item_q3]"
    by code_simp
  have e1: "map (\<lambda>item. dict_get item ''id'' (VStr ''N/A'')) (spec_failed ?f [item_q1] ?g) = []"
    by code_simp
  have e2: "map (\<lambda>item. dict_get item ''id'' (VStr ''N/A''))
              (spec_failed ?f [item_q3] (spec_graph ?f [item_q1] ?g)) = []"
    by code_simp
  have e3: "dict_get item_q2 ''id'' (VStr ''N/A'') = VStr ''q2''" by code_simp
  have e4: "length (spec_processed ?f ([item_q1] @ [item_q3]) ?g) = 2" by code_simp
  have e5: "map (\<lambda>n. (n_label n, node_prop n ''id'', node_prop n ''name''))
              (g_nodes (spec_graph ?f ([item_q1] @ [item_q3]) ?g)) =
        [(''Question'', VStr ''q1'', VNull), (''Concept'', VNull, VStr ''c1''),
         (''SubConcept'', VNull, VStr ''c1''), (''Question'', VStr ''q3'', VNull)]"
    by code_simp
  have e6: "edge_triples (spec_graph ?f ([item_q1] @ [item_q3]) ?g) =
        [(0, ''INVOLVES_CONCEPT'', 1), (0, ''INVOLVES_SUBCONCEPT'', 2)]"
    by code_simp
  from failing_item_is_isolated [where f = ?f and k = item_q2 and pre = "[item_q1]" and d = new_db
      and post = "[item_q3]" and batch_size = 2 and data = "[item_q1, item_q2, item_q3, item_q4]", OF k] b v
  obtain r d' where
    r: "process_data_in_batches ?f [item_q1, item_q2, item_q3, item_q4] 2 new_db = (Inr r, d')"
    and fi: "failed_item_ids r =
               map (\<lambda>item. dict_get item ''id'' (VStr ''N/A'')) (spec_failed ?f [item_q1] ?g) @
               dict_get item_q2 ''id'' (VStr ''N/A'') #
               map (\<lambda>item. dict_get item ''id'' (VStr ''N/A''))
                 (spec_failed ?f [item_q3] (spec_graph ?f [item_q1] ?g))"
    and fl: "failed_items r = length (failed_item_ids r)"
    and p: "processed_items r = length (spec_processed ?f ([item_q1] @ [item_q3]) ?g)"
    and c: "committed d' = spec_graph ?f ([item_q1] @ [item_q3]) ?g"
    by blast
  from fi have fi': "failed_item_ids r = [VStr ''q2'']" unfolding e1 e2 e3 by simp
  from fl fi' have fl': "failed_items r = 1" by simp
  from p have p': "processed_items r = 2" unfolding e4 .
  from c have c': "map (\<lambda>n. (n_label n, node_prop n ''id'', node_prop n ''name'')) (g_nodes (committed d')) =
        [(''Question'', VStr ''q1'', VNull), (''Concept'', VNull, VStr ''c1''),
         (''SubConcept'', VNull, VStr ''c1''), (''Question'', VStr ''q3'', VNull)]"
    using e5 by simp
  from c have c'': "edge_triples (committed d') =
        [(0, ''INVOLVES_CONCEPT'', 1), (0, ''INVOLVES_SUBCONCEPT'', 2)]"
    using e6 by simp
  from r fi' fl' p' c' c''
  have ex: "\<exists>r d'. process_data_in_batches ?f [item_q1, item_q2, item_q3, item_q4] 2 new_db = (Inr r, d') \<and>
      failed_item_ids r = [VStr ''q2''] \<and> failed_items r = 1 \<and> processed_items r = 2 \<and>
      map (\<lambda>n. (n_label n, node_prop n ''id'', node_prop n ''name'')) (g_nodes (committed d')) =
        [(''Question'', VStr ''q1'', VNull), (''Concept'', VNull, VStr ''c1''),
         (''SubConcept'', VNull, VStr ''c1''), (''Question'', VStr ''q3'', VNull)] \<and>
      edge_triples (committed d') =
        [(0, ''INVOLVES_CONCEPT'', 1), (0, ''INVOLVES_SUBCONCEPT'', 2)]"
    by - (rule exI [of _ r], rule exI [of _ d'], intro conjI, assumption+)
  show ?thesis
    by (intro conjI) (fact k, fact b, fact v, fact ex)
qed

text \<open>
  Claim C10.  For a positive batch size the pipeline returns a report, and the report
  accounts for every input item once: the total is the sum of the processed, failed
  and invalid counts, and the two identifier lists are as long as their counts.
\<close>

theorem report_accounting:
  assumes "0 < batch_size"
  shows "\<exists>r d'. process_data_in_batches f data batch_size d = (Inr r, d') \<and>
           total_items r = length data \<and>
           total_items r = processed_items r + failed_items r + invalid_items r \<and>
           length (failed_item_ids r) = failed_items r \<and>
           length (invalid_item_ids r) = invalid_items r"
proof -
  from validate_data_items_total [of data]
  obtain v where v: "validate_data_items data = Inr v"
    and a: "length (vr_valid_items v) + length (vr_invalid_items v) = length data"
    and b: "length (vr_invalid_item_ids v) = length (vr_invalid_items v)"
    by blast
  obtain st d' where bt: "batches f (vr_valid_items v) batch_size 0
                            \<lparr>processed = 0, failed = 0, failed_ids = []\<rparr> d = (st, d')"
    by (cases "batches f (vr_valid_items v) batch_size 0
                 \<lparr>processed = 0, failed = 0, failed_ids = []\<rparr> d") auto
  from batches_counts [OF assms _ _ bt]
  have c: "processed st + failed st = length (vr_valid_items v)"
    and e: "length (failed_ids st) = failed st" by auto
  from assms v bt a b c e show ?thesis
    by (simp add: process_data_in_batches_def)
qed

theorem report_accounting_witness:
  "(0::int) < 2 \<and>
   (\<exists>r d'. process_data_in_batches (populate_question_and_concepts_transaction 1)
              [item_q1, item_q2, item_q3, item_q4] 2 new_db = (Inr r, d') \<and>
           total_items r = length [item_q1, item_q2, item_q3, item_q4] \<and>
           total_items r = processed_items r + failed_items r + invalid_items r \<and>
           length (failed_item_ids r) = failed_items r \<and>
           length (invalid_item_ids r) = invalid_items r)"
  using report_accounting [of 2 "populate_question_and_concepts_transaction 1"
          "[item_q1, item_q2, item_q3, item_q4]" new_db]
  by simp

text \<open>
  With a negative batch size the range of the batch loop is empty: the valid item is
  counted in the total and in no outcome.
\<close>

theorem report_accounting_counterexample:
  "fst (process_data_in_batches (populate_question_and_concepts_transaction 1) [item_q1] (- 1) new_db) =
     Inr \<lparr>total_items = 1, processed_items = 0, failed_items = 0, invalid_items = 0,
          failed_item_ids = [], invalid_item_ids = []\<rparr> \<and>
   total_items \<lparr>total_items = 1, processed_items = 0, failed_items = 0, invalid_items = 0,
          failed_item_ids = [], invalid_item_ids = []\<rparr> \<noteq>
   processed_items \<lparr>total_items = 1, processed_items = 0, failed_items = 0, invalid_items = 0,
          failed_item_ids = [], invalid_item_ids = []\<rparr> + 0 + 0"
  by code_simp

text \<open>
  Claim C9.  When the file parses to a value that is not an array, \<open>_load_json_data\<close>
  raises \<open>DataValidationError\<close>, and \<open>populate_from_json_file\<close> lets it through to the
  caller with the database as it was: nothing is validated and nothing is upserted.
\<close>

theorem non_array_input_is_fatal:
  assumes "\<not> is_array v"
  shows "load_json_data (Parsed v) =
           Inl (DataValidationError ''JSON file must contain an array of objects'') \<and>
         populate_from_json_file f (Some (Parsed v)) batch_size d =
           (Inl (DataValidationError ''JSON file must contain an array of objects''), d)"
  using assms
  by (cases v) (simp_all add: is_array_def load_json_data_def populate_from_json_file_def)

theorem non_array_input_is_fatal_witness:
  "\<not> is_array (VObj item_q1) \<and>
   populate_from_json_file (populate_question_and_concepts_transaction 1)
       (Some (Parsed (VObj item_q1))) 100 new_db =
     (Inl (DataValidationError ''JSON file must contain an array of objects''), new_db)"
  using non_array_input_is_fatal [of "VObj item_q1" "populate_question_and_concepts_transaction 1" 100 new_db]
  by (simp add: is_array_def)

section \<open>Idempotence of the upsert\<close>

lemma node_prop_set_prop:
  "node_prop (set_prop k v n) k' = (if k' = k then v else node_prop n k')"
  by (simp add: node_prop_def set_prop_def update_conv' delete_conv')

lemma label_set_prop: "n_label (set_prop k v n) = n_label n"
  by (simp add: set_prop_def)

lemma node_prop_set_coalesce:
  "k' \<noteq> k \<Longrightarrow> node_prop (set_coalesce k v n) k' = node_prop n k'"
  by (simp add: set_coalesce_def node_prop_set_prop)

lemma label_set_coalesce: "n_label (set_coalesce k v n) = n_label n"
  by (simp add: set_coalesce_def label_set_prop)

lemma node_prop_stamp:
  "k \<noteq> ''created_at'' \<Longrightarrow> k \<noteq> ''updated_at'' \<Longrightarrow> node_prop (stamp now n) k = node_prop n k"
  by (simp add: stamp_def node_prop_set_prop node_prop_set_coalesce)

lemma label_stamp: "n_label (stamp now n) = n_label n"
  by (simp add: stamp_def label_set_prop label_set_coalesce)

lemma writes_stamp: "writes Map.empty (stamp now)"
  by (simp add: writes_def node_prop_stamp label_stamp)

lemma writes_explanation:
  "writes [''explanation'' \<mapsto> VStr e] (\<lambda>n. stamp now (set_prop ''explanation'' (VStr e) n))"
  by (simp add: writes_def node_prop_stamp label_stamp node_prop_set_prop label_set_prop)

lemma writes_ident: "writes w u \<Longrightarrow> ident (u n) = ident n"
  by (simp add: writes_def ident_def)

lemma matches_ident:
  "key_name k \<Longrightarrow> ident n = ident m \<Longrightarrow> node_matches l k v n = node_matches l k v m"
  by (auto simp: key_name_def ident_def node_matches_def)

lemma fresh_matches:
  "v \<noteq> VNull \<Longrightarrow> node_matches l k v \<lparr>n_label = l, n_props = [(k, v)]\<rparr>"
  by (simp add: node_matches_def node_prop_def)

lemma fresh_matches_only:
  assumes "key_name k" "key_name k'"
    and "node_matches l' k' v' \<lparr>n_label = l, n_props = [(k, v)]\<rparr>"
  shows "node_matches l' k' v' = node_matches l k v"
proof -
  from assms(3) have "l' = l" "v' \<noteq> VNull"
    and p: "node_prop \<lparr>n_label = l, n_props = [(k, v)]\<rparr> k' = v'"
    by (auto simp: node_matches_def)
  from p \<open>v' \<noteq> VNull\<close> have "k' = k \<and> v' = v"
    by (auto simp: node_prop_def split: if_splits)
  with \<open>l' = l\<close> show ?thesis by simp
qed

lemma upsert_node_edges: "g_edges (upsert_node l k v u g) = g_edges g"
  by (simp add: upsert_node_def cy_update_def)

lemma upsert_node_nodes:
  "v \<noteq> VNull \<Longrightarrow>
   g_nodes (upsert_node l k v u g) =
     map (\<lambda>n. if node_matches l k v n then u n else n) (g_nodes g) @
       (if list_ex (node_matches l k v) (g_nodes g) then []
        else [u \<lparr>n_label = l, n_props = [(k, v)]\<rparr>])"
  by (simp add: upsert_node_def cy_update_def fresh_matches)

lemma upsert_node_length: "length (g_nodes h) \<le> length (g_nodes (upsert_node l k v u h))"
  by (simp add: upsert_node_def cy_update_def)

lemma upsert_node_old:
  assumes "v \<noteq> VNull" "i < length (g_nodes h)"
  shows "g_nodes (upsert_node l k v u h) ! i =
           (if node_matches l k v (g_nodes h ! i) then u (g_nodes h ! i) else g_nodes h ! i)"
  using assms by (simp add: upsert_node_nodes nth_append)

lemma upsert_node_old_ident:
  assumes "writes w u" "v \<noteq> VNull" "i < length (g_nodes h)"
  shows "ident (g_nodes (upsert_node l k v u h) ! i) = ident (g_nodes h ! i)"
  using assms by (simp add: upsert_node_old writes_ident)

lemma upsert_node_new:
  assumes "v \<noteq> VNull" "i < length (g_nodes (upsert_node l k v u h))" "length (g_nodes h) \<le> i"
  shows "\<not> list_ex (node_matches l k v) (g_nodes h) \<and>
         g_nodes (upsert_node l k v u h) ! i = u \<lparr>n_label = l, n_props = [(k, v)]\<rparr>"
proof -
  from assms(2,3) have "\<not> list_ex (node_matches l k v) (g_nodes h)"
    by (auto simp: upsert_node_nodes [OF assms(1)] split: if_splits)
  moreover from this assms(2,3) have "i = length (g_nodes h)"
    by (simp add: upsert_node_nodes [OF assms(1)])
  ultimately show ?thesis
    by (simp add: upsert_node_nodes [OF assms(1)] nth_append)
qed

lemma upsert_node_matched:
  assumes w: "writes w u" and k: "key_name k" and v: "v \<noteq> VNull"
    and i: "i < length (g_nodes (upsert_node l k v u h))"
    and m: "node_matches l k v (g_nodes (upsert_node l k v u h) ! i)"
  shows "\<exists>n. g_nodes (upsert_node l k v u h) ! i = u n"
proof (cases "i < length (g_nodes h)")
  case True
  from m upsert_node_old_ident [OF w v True, of l k] k
  have "node_matches l k v (g_nodes h ! i)"
    using matches_ident by blast
  with upsert_node_old [OF v True, of l k u] show ?thesis by auto
next
  case False
  with upsert_node_new [OF v i] show ?thesis by auto
qed

lemma upsert_node_has_match:
  assumes w: "writes w u" and k: "key_name k" and v: "v \<noteq> VNull"
  shows "\<exists>m. m < length (g_nodes (upsert_node l k v u h)) \<and>
             node_matches l k v (g_nodes (upsert_node l k v u h) ! m)"
proof (cases "list_ex (node_matches l k v) (g_nodes h)")
  case True
  then obtain m where m: "m < length (g_nodes h)" "node_matches l k v (g_nodes h ! m)"
    by (auto simp: list_ex_iff in_set_conv_nth)
  from upsert_node_old_ident [OF w v m(1), of l k] m(2) k
  have "node_matches l k v (g_nodes (upsert_node l k v u h) ! m)"
    using matches_ident by blast
  moreover from m(1) upsert_node_length [of h l k v u]
  have "m < length (g_nodes (upsert_node l k v u h))" by simp
  ultimately show ?thesis by blast
next
  case False
  let ?new = "\<lparr>n_label = l, n_props = [(k, v)]\<rparr>"
  from False v have n: "g_nodes (upsert_node l k v u h) ! length (g_nodes h) = u ?new"
    and l: "length (g_nodes h) < length (g_nodes (upsert_node l k v u h))"
    by (simp_all add: upsert_node_nodes nth_append)
  from writes_ident [OF w, of ?new] k fresh_matches [OF v, of l k]
  have "node_matches l k v (u ?new)"
    using matches_ident by blast
  with n l show ?thesis by auto
qed

lemma step_ext:
  assumes w: "writes w u" and k: "key_name k" and v: "v \<noteq> VNull"
    and e: "ext (upsert_node l k v u h) g1"
  shows "ext h g1"
proof -
  let ?H = "upsert_node l k v u h"
  let ?new = "\<lparr>n_label = l, n_props = [(k, v)]\<rparr>"
  from e have len: "length (g_nodes ?H) \<le> length (g_nodes g1)"
    and id: "\<And>i. i < length (g_nodes ?H) \<Longrightarrow> ident (g_nodes g1 ! i) = ident (g_nodes ?H ! i)"
    and ed: "set (g_edges ?H) \<subseteq> set (g_edges g1)"
    and fr: "\<And>l k v i j. key_name k \<Longrightarrow> i < length (g_nodes ?H) \<Longrightarrow> length (g_nodes ?H) \<le> j \<Longrightarrow>
            j < length (g_nodes g1) \<Longrightarrow> node_matches l k v (g_nodes g1 ! i) \<Longrightarrow>
            \<not> node_matches l k v (g_nodes g1 ! j)"
    by (simp_all add: ext_def)
  have hl: "length (g_nodes h) \<le> length (g_nodes ?H)" by (rule upsert_node_length)
  have id': "ident (g_nodes g1 ! i) = ident (g_nodes h ! i)" if "i < length (g_nodes h)" for i
    using that id [of i] hl upsert_node_old_ident [OF w v that, of l k] by simp
  have fr': "\<not> node_matches l' k' v' (g_nodes g1 ! j)"
    if k': "key_name k'" and i: "i < length (g_nodes h)" and j: "length (g_nodes h) \<le> j"
      "j < length (g_nodes g1)" and m: "node_matches l' k' v' (g_nodes g1 ! i)"
    for l' k' v' i j
  proof (cases "length (g_nodes ?H) \<le> j")
    case True
    from fr [OF k' _ True j(2) m] i hl show ?thesis by simp
  next
    case False
    then have jH: "j < length (g_nodes ?H)" by simp
    from upsert_node_new [OF v jH j(1)]
    have none: "\<not> list_ex (node_matches l k v) (g_nodes h)" and new: "g_nodes ?H ! j = u ?new"
      by simp_all
    show ?thesis
    proof
      assume mj: "node_matches l' k' v' (g_nodes g1 ! j)"
      from id [OF jH] new writes_ident [OF w, of ?new]
      have "ident (g_nodes g1 ! j) = ident ?new" by simp
      from matches_ident [OF k' this] mj have "node_matches l' k' v' ?new" by simp
      from fresh_matches_only [OF k k' this] have eq: "node_matches l' k' v' = node_matches l k v" .
      from m eq have "node_matches l k v (g_nodes g1 ! i)" by simp
      with matches_ident [OF k id' [OF i]] have "node_matches l k v (g_nodes h ! i)" by simp
      with i none show False by (auto simp: list_ex_iff)
    qed
  qed
  from len hl id' ed fr' show ?thesis
    by (simp add: ext_def upsert_node_edges)
qed

lemma step_sim:
  assumes w1: "writes w u1" and w2: "writes w u2" and k: "key_name k" and v: "v \<noteq> VNull"
    and e: "ext (upsert_node l k v u1 h) g1"
    and s: "sim h h' g1"
  shows "sim (upsert_node l k v u1 h) (upsert_node l k v u2 h') g1"
proof -
  let ?H = "upsert_node l k v u1 h"
  let ?H' = "upsert_node l k v u2 h'"
  let ?M = "node_matches l k v"
  from e have len: "length (g_nodes ?H) \<le> length (g_nodes g1)"
    and id: "\<And>i. i < length (g_nodes ?H) \<Longrightarrow> ident (g_nodes g1 ! i) = ident (g_nodes ?H ! i)"
    and fr: "\<And>l k v i j. key_name k \<Longrightarrow> i < length (g_nodes ?H) \<Longrightarrow> length (g_nodes ?H) \<le> j \<Longrightarrow>
            j < length (g_nodes g1) \<Longrightarrow> node_matches l k v (g_nodes g1 ! i) \<Longrightarrow>
            \<not> node_matches l k v (g_nodes g1 ! j)"
    by (simp_all add: ext_def)
  from s have sed: "g_edges h' = g_edges g1" and slen: "length (g_nodes h') = length (g_nodes g1)"
    and sid: "\<And>i. i < length (g_nodes g1) \<Longrightarrow> ident (g_nodes h' ! i) = ident (g_nodes g1 ! i)"
    and sp: "\<And>i k. i < length (g_nodes g1) \<Longrightarrow> k \<noteq> ''created_at'' \<Longrightarrow> k \<noteq> ''updated_at'' \<Longrightarrow>
           node_prop (g_nodes h' ! i) k = node_prop (g_nodes g1 ! i) k \<or>
           (i < length (g_nodes h) \<and> node_prop (g_nodes h' ! i) k = node_prop (g_nodes h ! i) k)"
    by (simp_all add: sim_def)
  have hl: "length (g_nodes h) \<le> length (g_nodes ?H)" by (rule upsert_node_length)
  from upsert_node_has_match [OF w1 k v, of l h]
  obtain m where m: "m < length (g_nodes ?H)" "?M (g_nodes ?H ! m)" by blast
  from m(1) len have mg: "m < length (g_nodes g1)" by simp
  from matches_ident [OF k id [OF m(1)]] m(2) have mg1: "?M (g_nodes g1 ! m)" by simp
  with matches_ident [OF k sid [OF mg]] have "?M (g_nodes h' ! m)" by simp
  moreover from mg slen have "g_nodes h' ! m \<in> set (g_nodes h')" by simp
  ultimately have ex: "list_ex ?M (g_nodes h')"
    unfolding list_ex_iff by blast
  have H'n: "g_nodes ?H' = map (\<lambda>n. if ?M n then u2 n else n) (g_nodes h')"
    using ex v by (simp add: upsert_node_nodes)
  have H'i: "g_nodes ?H' ! i = (if ?M (g_nodes h' ! i) then u2 (g_nodes h' ! i) else g_nodes h' ! i)"
    if "i < length (g_nodes g1)" for i
    using that slen by (simp add: H'n)
  have a: "g_edges ?H' = g_edges g1" by (simp add: upsert_node_edges sed)
  have b: "length (g_nodes ?H') = length (g_nodes g1)" by (simp add: H'n slen)
  have c: "ident (g_nodes ?H' ! i) = ident (g_nodes g1 ! i)" if "i < length (g_nodes g1)" for i
    using H'i [OF that] sid [OF that] writes_ident [OF w2] by simp
  have d: "node_prop (g_nodes ?H' ! i) k' = node_prop (g_nodes g1 ! i) k' \<or>
           (i < length (g_nodes ?H) \<and> node_prop (g_nodes ?H' ! i) k' = node_prop (g_nodes ?H ! i) k')"
    if i: "i < length (g_nodes g1)" and k1: "k' \<noteq> ''created_at''" and k2: "k' \<noteq> ''updated_at''"
    for i k'
  proof (cases "?M (g_nodes h' ! i) \<and> w k' \<noteq> None")
    case True
    then obtain x where x: "w k' = Some x" and mi: "?M (g_nodes h' ! i)" by auto
    from w2 x k1 k2 have "node_prop (u2 (g_nodes h' ! i)) k' = x"
      by (simp add: writes_def)
    with H'i [OF i] mi have l: "node_prop (g_nodes ?H' ! i) k' = x" by simp
    from matches_ident [OF k sid [OF i]] mi have mgi: "?M (g_nodes g1 ! i)" by simp
    have iH: "i < length (g_nodes ?H)"
    proof (rule ccontr)
      assume "\<not> i < length (g_nodes ?H)"
      then have "length (g_nodes ?H) \<le> i" by simp
      from fr [OF k m(1) this i mg1] mgi show False by simp
    qed
    from matches_ident [OF k id [OF iH]] mgi have "?M (g_nodes ?H ! i)" by simp
    from upsert_node_matched [OF w1 k v iH this] obtain n where "g_nodes ?H ! i = u1 n" by blast
    with w1 x k1 k2 have "node_prop (g_nodes ?H ! i) k' = x" by (simp add: writes_def)
    with l iH show ?thesis by simp
  next
    case False
    have keep: "node_prop (g_nodes ?H' ! i) k' = node_prop (g_nodes h' ! i) k'"
    proof (cases "?M (g_nodes h' ! i)")
      case True
      with False have "w k' = None" by simp
      with w2 k1 k2 have "node_prop (u2 (g_nodes h' ! i)) k' = node_prop (g_nodes h' ! i) k'"
        by (simp add: writes_def)
      with H'i [OF i] True show ?thesis by simp
    next
      case False
      with H'i [OF i] show ?thesis by simp
    qed
    from sp [OF i k1 k2] show ?thesis
    proof
      assume "node_prop (g_nodes h' ! i) k' = node_prop (g_nodes g1 ! i) k'"
      with keep show ?thesis by simp
    next
      assume r: "i < length (g_nodes h) \<and> node_prop (g_nodes h' ! i) k' = node_prop (g_nodes h ! i) k'"
      then have ih: "i < length (g_nodes h)" by simp
      with hl have iH: "i < length (g_nodes ?H)" by simp
      have "node_prop (g_nodes ?H ! i) k' = node_prop (g_nodes h ! i) k'"
      proof (cases "?M (g_nodes h ! i)")
        case True
        from id [OF iH] upsert_node_old_ident [OF w1 v ih, of l k]
        have "ident (g_nodes g1 ! i) = ident (g_nodes h ! i)" by simp
        with sid [OF i] have "ident (g_nodes h' ! i) = ident (g_nodes h ! i)" by simp
        from matches_ident [OF k this] True have "?M (g_nodes h' ! i)" by simp
        with False have "w k' = None" by simp
        with w1 k1 k2 have "node_prop (u1 (g_nodes h ! i)) k' = node_prop (g_nodes h ! i) k'"
          by (simp add: writes_def)
        with upsert_node_old [OF v ih, of l k u1] True show ?thesis by simp
      next
        case False
        with upsert_node_old [OF v ih, of l k u1] show ?thesis by simp
      qed
      with r keep iH show ?thesis by simp
    qed
  qed
  from a b c d show ?thesis by (simp add: sim_def)
qed

lemma has_edge_iff:
  "has_edge i ty j g = (\<exists>e \<in> set (g_edges g). e_src e = i \<and> e_type e = ty \<and> e_dst e = j)"
  by (simp add: has_edge_def list_ex_iff)

lemma merge_edge_nodes: "g_nodes (merge_edge ty g ij) = g_nodes g"
  by (simp add: merge_edge_def)

lemma merge_edge_mono: "set (g_edges g) \<subseteq> set (g_edges (merge_edge ty g ij))"
  by (auto simp: merge_edge_def)

lemma merge_edge_has: "has_edge (fst ij) ty (snd ij) (merge_edge ty g ij)"
  by (auto simp: merge_edge_def has_edge_iff)

lemma foldl_merge_nodes: "g_nodes (foldl (merge_edge ty) g ps) = g_nodes g"
  by (induction ps arbitrary: g) (simp_all add: merge_edge_nodes)

lemma foldl_merge_mono: "set (g_edges g) \<subseteq> set (g_edges (foldl (merge_edge ty) g ps))"
proof (induction ps arbitrary: g)
  case Nil
  show ?case by simp
next
  case (Cons p ps)
  from merge_edge_mono [of g ty p] Cons.IH [of "merge_edge ty g p"] show ?case by auto
qed

lemma has_edge_mono:
  "set (g_edges g) \<subseteq> set (g_edges g') \<Longrightarrow> has_edge i ty j g \<Longrightarrow> has_edge i ty j g'"
  by (auto simp: has_edge_iff)

lemma foldl_merge_has:
  "p \<in> set ps \<Longrightarrow> has_edge (fst p) ty (snd p) (foldl (merge_edge ty) g ps)"
proof (induction ps arbitrary: g)
  case Nil
  then show ?case by simp
next
  case (Cons q ps)
  show ?case
  proof (cases "p = q")
    case True
    from has_edge_mono [OF foldl_merge_mono [of "merge_edge ty g q" ty ps] merge_edge_has [of q ty g]] True
    show ?thesis by simp
  next
    case False
    with Cons.prems have "p \<in> set ps" by simp
    from Cons.IH [OF this] show ?thesis by simp
  qed
qed

lemma foldl_merge_id:
  "(\<And>p. p \<in> set ps \<Longrightarrow> has_edge (fst p) ty (snd p) g) \<Longrightarrow> foldl (merge_edge ty) g ps = g"
proof (induction ps)
  case Nil
  show ?case by simp
next
  case (Cons q ps)
  from Cons.prems [of q] have "merge_edge ty g q = g" by (simp add: merge_edge_def)
  with Cons show ?case by simp
qed

lemma cy_link_nodes: "g_nodes (cy_link P ty Q g) = g_nodes g"
  by (simp add: cy_link_def foldl_merge_nodes)

lemma cy_link_mono: "set (g_edges g) \<subseteq> set (g_edges (cy_link P ty Q g))"
  by (simp add: cy_link_def foldl_merge_mono)

lemma cy_link_has:
  assumes "i < length (g_nodes g)" "P (g_nodes g ! i)" "j < length (g_nodes g)" "Q (g_nodes g ! j)"
  shows "has_edge i ty j (cy_link P ty Q g)"
proof -
  from assms have "(i, j) \<in> set (List.product (match_ids P g) (match_ids Q g))"
    by (simp add: match_ids_def)
  from foldl_merge_has [OF this, of ty g] show ?thesis by (simp add: cy_link_def)
qed

lemma link_ext: "ext (cy_link P ty Q h) g1 \<Longrightarrow> ext h g1"
  using cy_link_mono [of h P ty Q] by (auto simp: ext_def cy_link_nodes)

lemma link_sim:
  assumes kq: "key_name kq" and k: "key_name k"
    and exq: "list_ex (node_matches lq kq vq) (g_nodes h)"
    and exc: "list_ex (node_matches l k v) (g_nodes h)"
    and e: "ext (cy_link (node_matches lq kq vq) ty (node_matches l k v) h) g1"
    and s: "sim h h' g1"
  shows "cy_link (node_matches lq kq vq) ty (node_matches l k v) h' = h' \<and>
         sim (cy_link (node_matches lq kq vq) ty (node_matches l k v) h) h' g1"
proof -
  let ?P = "node_matches lq kq vq"
  let ?Q = "node_matches l k v"
  let ?H = "cy_link ?P ty ?Q h"
  from e have len: "length (g_nodes h) \<le> length (g_nodes g1)"
    and id: "\<And>i. i < length (g_nodes h) \<Longrightarrow> ident (g_nodes g1 ! i) = ident (g_nodes h ! i)"
    and ed: "set (g_edges ?H) \<subseteq> set (g_edges g1)"
    and fr: "\<And>l k v i j. key_name k \<Longrightarrow> i < length (g_nodes h) \<Longrightarrow> length (g_nodes h) \<le> j \<Longrightarrow>
            j < length (g_nodes g1) \<Longrightarrow> node_matches l k v (g_nodes g1 ! i) \<Longrightarrow>
            \<not> node_matches l k v (g_nodes g1 ! j)"
    by (simp_all add: ext_def cy_link_nodes)
  from s have sed: "g_edges h' = g_edges g1" and slen: "length (g_nodes h') = length (g_nodes g1)"
    and sid: "\<And>i. i < length (g_nodes g1) \<Longrightarrow> ident (g_nodes h' ! i) = ident (g_nodes g1 ! i)"
    by (simp_all add: sim_def)
  have older: "i < length (g_nodes h) \<and> node_matches l' k' v' (g_nodes h ! i)"
    if k': "key_name k'" and ex: "list_ex (node_matches l' k' v') (g_nodes h)"
      and i: "i < length (g_nodes h')" and m: "node_matches l' k' v' (g_nodes h' ! i)"
    for l' k' v' i
  proof -
    from ex obtain a where a: "a < length (g_nodes h)" "node_matches l' k' v' (g_nodes h ! a)"
      by (auto simp: list_ex_iff in_set_conv_nth)
    from matches_ident [OF k' id [OF a(1)]] a(2)
    have ag: "node_matches l' k' v' (g_nodes g1 ! a)" by simp
    from i slen have ig: "i < length (g_nodes g1)" by simp
    from matches_ident [OF k' sid [OF ig]] m
    have mg: "node_matches l' k' v' (g_nodes g1 ! i)" by simp
    have ih: "i < length (g_nodes h)"
    proof (rule ccontr)
      assume "\<not> i < length (g_nodes h)"
      then have "length (g_nodes h) \<le> i" by simp
      from fr [OF k' a(1) this ig ag] mg show False by simp
    qed
    from matches_ident [OF k' id [OF ih]] mg show ?thesis using ih by simp
  qed
  have "foldl (merge_edge ty) h' (List.product (match_ids ?P h') (match_ids ?Q h')) = h'"
  proof (rule foldl_merge_id)
    fix p assume "p \<in> set (List.product (match_ids ?P h') (match_ids ?Q h'))"
    then have pi: "fst p < length (g_nodes h')" "?P (g_nodes h' ! fst p)"
      and pj: "snd p < length (g_nodes h')" "?Q (g_nodes h' ! snd p)"
      by (auto simp: match_ids_def)
    from older [OF kq exq pi] older [OF k exc pj]
    have "has_edge (fst p) ty (snd p) ?H" by (simp add: cy_link_has)
    from has_edge_mono [OF ed this] sed show "has_edge (fst p) ty (snd p) h'"
      by (simp add: has_edge_iff)
  qed
  then have "cy_link ?P ty ?Q h' = h'" by (simp add: cy_link_def)
  moreover from s have "sim ?H h' g1" by (simp add: sim_def cy_link_nodes)
  ultimately show ?thesis by simp
qed

lemma ext_refl: "ext g g"
  by (simp add: ext_def)

lemma sim_final: "sim g1 g2 g1 \<Longrightarrow> same_modulo_time g1 g2"
proof -
  assume s: "sim g1 g2 g1"
  then have "length (g_nodes g2) = length (g_nodes g1)"
    and "\<And>i. i < length (g_nodes g1) \<Longrightarrow> ident (g_nodes g2 ! i) = ident (g_nodes g1 ! i)"
    by (simp_all add: sim_def)
  then have "map n_label (g_nodes g2) = map n_label (g_nodes g1)"
    by (auto simp: list_eq_iff_nth_eq ident_def)
  with s show ?thesis by (auto simp: sim_def same_modulo_time_def)
qed

lemma twin_sound:
  "twin g1 g2 h h' \<Longrightarrow> ext h g1 \<and> (sim h h' g1 \<longrightarrow> same_modulo_time g1 g2)"
proof (induction rule: twin.induct)
  case twin_done
  show ?case by (simp add: ext_refl sim_final)
next
  case (twin_step w u1 u2 k v l h h')
  then have e: "ext (upsert_node l k v u1 h) g1"
    and c: "sim (upsert_node l k v u1 h) (upsert_node l k v u2 h') g1 \<longrightarrow> same_modulo_time g1 g2"
    by simp_all
  from step_ext [OF twin_step.hyps(1,3,4) e] have "ext h g1" .
  moreover have "sim h h' g1 \<longrightarrow> same_modulo_time g1 g2"
    using step_sim [OF twin_step.hyps(1,2,3,4) e] c by blast
  ultimately show ?case by simp
next
  case (twin_link kq k lq vq h l v ty h')
  let ?H = "cy_link (node_matches lq kq vq) ty (node_matches l k v) h"
  let ?H' = "cy_link (node_matches lq kq vq) ty (node_matches l k v) h'"
  from twin_link have e: "ext ?H g1" and c: "sim ?H ?H' g1 \<longrightarrow> same_modulo_time g1 g2"
    by simp_all
  from link_ext [OF e] have "ext h g1" .
  moreover have "same_modulo_time g1 g2" if s: "sim h h' g1"
    using link_sim [OF twin_link.hyps(1,2,3,4) e s] c by simp
  ultimately show ?case by simp
qed

lemma sim_start: "sim g g1 g1"
  by (simp add: sim_def)

lemma twin_same: "twin g1 g2 g g1 \<Longrightarrow> same_modulo_time g1 g2"
  using twin_sound [of g1 g2 g g1] sim_start by simp

lemma follows_refl: "follows h h' h h'"
  by (simp add: follows_def)

lemma follows_trans: "follows h h' hA hB \<Longrightarrow> follows hA hB hC hD \<Longrightarrow> follows h h' hC hD"
  by (simp add: follows_def)

lemma follows_step:
  "writes w u1 \<Longrightarrow> writes w u2 \<Longrightarrow> key_name k \<Longrightarrow> v \<noteq> VNull \<Longrightarrow>
   follows h h' (upsert_node l k v u1 h) (upsert_node l k v u2 h')"
  unfolding follows_def using twin_step by blast

lemma follows_link:
  "key_name kq \<Longrightarrow> key_name k \<Longrightarrow> list_ex (node_matches lq kq vq) (g_nodes h) \<Longrightarrow>
   list_ex (node_matches l k v) (g_nodes h) \<Longrightarrow>
   follows h h' (cy_link (node_matches lq kq vq) ty (node_matches l k v) h)
                (cy_link (node_matches lq kq vq) ty (node_matches l k v) h')"
  unfolding follows_def using twin_link by blast

lemma list_ex_nth: "list_ex P xs = (\<exists>i<length xs. P (xs ! i))"
  by (metis in_set_conv_nth list_ex_iff)

lemma upsert_node_ex:
  assumes w: "writes w u" and k: "key_name k" and v: "v \<noteq> VNull"
  shows "list_ex (node_matches l k v) (g_nodes (upsert_node l k v u h))"
  using upsert_node_has_match [OF w k v, of l h] by (simp add: list_ex_nth)

lemma upsert_node_keeps:
  assumes w: "writes w u" and v: "v \<noteq> VNull" and kq: "key_name kq"
    and ex: "list_ex (node_matches lq kq vq) (g_nodes h)"
  shows "list_ex (node_matches lq kq vq) (g_nodes (upsert_node l k v u h))"
proof -
  from ex obtain a where a: "a < length (g_nodes h)" "node_matches lq kq vq (g_nodes h ! a)"
    by (auto simp: list_ex_nth)
  from matches_ident [OF kq upsert_node_old_ident [OF w v a(1), of l k]] a(2)
  have "node_matches lq kq vq (g_nodes (upsert_node l k v u h) ! a)" by simp
  moreover from a(1) upsert_node_length [of h l k v u]
  have "a < length (g_nodes (upsert_node l k v u h))" by simp
  ultimately show ?thesis by (auto simp: list_ex_nth)
qed

lemma key_names: "key_name ''id''" "key_name ''name''"
  by (simp_all add: key_name_def)

lemma merge_node_eq:
  "v \<noteq> VNull \<Longrightarrow> storable v \<Longrightarrow>
   (case cy_merge_node l k v g of Inl e \<Rightarrow> Inl e | Inr g1 \<Rightarrow> Inr (cy_update (node_matches l k v) u g1)) =
     Inr (upsert_node l k v u g)"
  by (simp add: cy_merge_node_def upsert_node_def)

lemma concept_query_eq:
  "concept_query now l name g = Inr (upsert_node l ''name'' (VStr name) (stamp now) g)"
  unfolding concept_query_def by (rule merge_node_eq) simp_all

lemma approach_query_eq:
  "approach_query now name e g =
     Inr (upsert_node ''SolutionApproach'' ''name'' (VStr name)
            (\<lambda>n. stamp now (set_prop ''explanation'' (VStr e) n)) g)"
  unfolding approach_query_def by (rule merge_node_eq) simp_all

lemma body_follows:
  assumes w1: "writes w u1" and w2: "writes w u2"
    and q: "list_ex (node_matches ''Question'' ''id'' qid) (g_nodes h)"
  shows "follows h h'
           (link_query ty qid l name (upsert_node l ''name'' (VStr name) u1 h))
           (link_query ty qid l name (upsert_node l ''name'' (VStr name) u2 h')) \<and>
         list_ex (node_matches ''Question'' ''id'' qid)
           (g_nodes (link_query ty qid l name (upsert_node l ''name'' (VStr name) u1 h)))"
proof -
  let ?h1 = "upsert_node l ''name'' (VStr name) u1 h"
  let ?h1' = "upsert_node l ''name'' (VStr name) u2 h'"
  have s: "follows h h' ?h1 ?h1'"
    by (rule follows_step [OF w1 w2 key_names(2)]) simp
  have q1: "list_ex (node_matches ''Question'' ''id'' qid) (g_nodes ?h1)"
    by (rule upsert_node_keeps [OF w1 _ key_names(1) q]) simp
  have c1: "list_ex (node_matches l ''name'' (VStr name)) (g_nodes ?h1)"
    by (rule upsert_node_ex [OF w1 key_names(2)]) simp
  have "follows ?h1 ?h1' (link_query ty qid l name ?h1) (link_query ty qid l name ?h1')"
    unfolding link_query_def by (rule follows_link [OF key_names(1) key_names(2) q1 c1])
  with s have "follows h h' (link_query ty qid l name ?h1) (link_query ty qid l name ?h1')"
    by (rule follows_trans)
  with q1 show ?thesis by (simp add: link_query_def cy_link_nodes)
qed

lemma link_names_follows:
  assumes "link_names t1 l ty item cs h = Inr hA"
    and "list_ex (node_matches ''Question'' ''id'' qid) (g_nodes h)"
    and "dict_index item ''id'' = Inr qid"
  shows "\<exists>hB. link_names t2 l ty item cs h' = Inr hB \<and> follows h h' hA hB \<and>
              list_ex (node_matches ''Question'' ''id'' qid) (g_nodes hA)"
  using assms
proof (induction cs arbitrary: h h')
  case Nil
  then show ?case by (simp add: follows_refl)
next
  case (Cons c cs)
  show ?case
  proof (cases "truthy c")
    case False
    with Cons.prems have "link_names t1 l ty item cs h = Inr hA" by simp
    from Cons.IH [OF this Cons.prems(2,3), of h'] False show ?thesis by simp
  next
    case t: True
    with Cons.prems(1) obtain s where c: "c = VStr s"
      by (cases c) simp_all
    from t c have s: "s \<noteq> []" by simp
    show ?thesis
    proof (cases "strip s = []")
      case True
      with c s Cons.prems have "link_names t1 l ty item cs h = Inr hA" by simp
      from Cons.IH [OF this Cons.prems(2,3), of h'] True c s show ?thesis by simp
    next
      case False
      let ?h2 = "link_query ty qid l (strip s) (upsert_node l ''name'' (VStr (strip s)) (stamp t1) h)"
      let ?h2' = "link_query ty qid l (strip s) (upsert_node l ''name'' (VStr (strip s)) (stamp t2) h')"
      from False c s Cons.prems
      have r: "link_names t1 l ty item cs ?h2 = Inr hA"
        by (simp add: concept_query_eq)
      have "follows h h' ?h2 ?h2' \<and> list_ex (node_matches ''Question'' ''id'' qid) (g_nodes ?h2)"
        by (rule body_follows [OF writes_stamp writes_stamp Cons.prems(2)])
      then have f: "follows h h' ?h2 ?h2'"
        and q: "list_ex (node_matches ''Question'' ''id'' qid) (g_nodes ?h2)"
        by simp_all
      from Cons.IH [OF r q Cons.prems(3), of ?h2']
      obtain hB where hB: "link_names t2 l ty item cs ?h2' = Inr hB" "follows ?h2 ?h2' hA hB"
        "list_ex (node_matches ''Question'' ''id'' qid) (g_nodes hA)" by blast
      from False c s Cons.prems(3) hB(1)
      have "link_names t2 l ty item (c # cs) h' = Inr hB"
        by (simp add: concept_query_eq)
      with follows_trans [OF f hB(2)] hB(3) show ?thesis by blast
    qed
  qed
qed

lemma link_approaches_follows:
  assumes "link_approaches t1 item as h = Inr hA"
    and "list_ex (node_matches ''Question'' ''id'' qid) (g_nodes h)"
    and "dict_index item ''id'' = Inr qid"
  shows "\<exists>hB. link_approaches t2 item as h' = Inr hB \<and> follows h h' hA hB \<and>
              list_ex (node_matches ''Question'' ''id'' qid) (g_nodes hA)"
  using assms
proof (induction as arbitrary: h h')
  case Nil
  then show ?case by (simp add: follows_refl)
next
  case (Cons a as)
  from Cons.prems(1) obtain d where a: "a = VObj d"
    by (cases a) simp_all
  from Cons.prems(1) a obtain name where n: "get_stripped d ''approach_name'' = Inr name"
    by (cases "get_stripped d ''approach_name''") simp_all
  from Cons.prems(1) a n obtain e where e: "get_stripped d ''explanation'' = Inr e"
    by (cases "get_stripped d ''explanation''") simp_all
  show ?case
  proof (cases "name = []")
    case True
    with a n e Cons.prems have "link_approaches t1 item as h = Inr hA" by simp
    from Cons.IH [OF this Cons.prems(2,3), of h'] True a n e show ?thesis by simp
  next
    case False
    let ?u1 = "\<lambda>n. stamp t1 (set_prop ''explanation'' (VStr e) n)"
    let ?u2 = "\<lambda>n. stamp t2 (set_prop ''explanation'' (VStr e) n)"
    let ?h2 = "link_query ''HAS_SOLUTION_APPROACH'' qid ''SolutionApproach'' name
                 (upsert_node ''SolutionApproach'' ''name'' (VStr name) ?u1 h)"
    let ?h2' = "link_query ''HAS_SOLUTION_APPROACH'' qid ''SolutionApproach'' name
                 (upsert_node ''SolutionApproach'' ''name'' (VStr name) ?u2 h')"
    from False a n e Cons.prems
    have r: "link_approaches t1 item as ?h2 = Inr hA"
      by (simp add: approach_query_eq)
    have "follows h h' ?h2 ?h2' \<and> list_ex (node_matches ''Question'' ''id'' qid) (g_nodes ?h2)"
      by (rule body_follows [OF writes_explanation writes_explanation Cons.prems(2)])
    then have f: "follows h h' ?h2 ?h2'"
      and q: "list_ex (node_matches ''Question'' ''id'' qid) (g_nodes ?h2)"
      by simp_all
    from Cons.IH [OF r q Cons.prems(3), of ?h2']
    obtain hB where hB: "link_approaches t2 item as ?h2' = Inr hB" "follows ?h2 ?h2' hA hB"
      "list_ex (node_matches ''Question'' ''id'' qid) (g_nodes hA)" by blast
    from False a n e Cons.prems(3) hB(1)
    have "link_approaches t2 item (a # as) h' = Inr hB"
      by (simp add: approach_query_eq)
    with follows_trans [OF f hB(2)] hB(3) show ?thesis by blast
  qed
qed

lemma create_standard_concepts_follows:
  assumes "create_standard_concepts t1 item h = Inr hA"
    and "list_ex (node_matches ''Question'' ''id'' qid) (g_nodes h)"
    and "dict_index item ''id'' = Inr qid"
  shows "\<exists>hB. create_standard_concepts t2 item h' = Inr hB \<and> follows h h' hA hB \<and>
              list_ex (node_matches ''Question'' ''id'' qid) (g_nodes hA)"
proof (cases "truthy (dict_get item ''sub_concepts'' (VList []))")
  case False
  with assms show ?thesis by (simp add: create_standard_concepts_def follows_refl)
next
  case True
  with assms(1) obtain cs where cs: "py_iter (dict_get item ''sub_concepts'' (VList [])) = Inr cs"
    by (cases "py_iter (dict_get item ''sub_concepts'' (VList []))")
       (simp_all add: create_standard_concepts_def)
  with True assms(1) have "link_names t1 ''Concept'' ''INVOLVES_CONCEPT'' item cs h = Inr hA"
    by (simp add: create_standard_concepts_def)
  from link_names_follows [OF this assms(2,3), of t2 h'] True cs show ?thesis
    by (simp add: create_standard_concepts_def)
qed

lemma create_subconcepts_follows:
  assumes "create_subconcepts t1 item h = Inr hA"
    and "list_ex (node_matches ''Question'' ''id'' qid) (g_nodes h)"
    and "dict_index item ''id'' = Inr qid"
  shows "\<exists>hB. create_subconcepts t2 item h' = Inr hB \<and> follows h h' hA hB \<and>
              list_ex (node_matches ''Question'' ''id'' qid) (g_nodes hA)"
proof (cases "truthy (dict_get item ''sub_concepts'' (VList []))")
  case False
  with assms show ?thesis by (simp add: create_subconcepts_def follows_refl)
next
  case True
  with assms(1) obtain cs where cs: "py_iter (dict_get item ''sub_concepts'' (VList [])) = Inr cs"
    by (cases "py_iter (dict_get item ''sub_concepts'' (VList []))")
       (simp_all add: create_subconcepts_def)
  with True assms(1) have "link_names t1 ''SubConcept'' ''INVOLVES_SUBCONCEPT'' item cs h = Inr hA"
    by (simp add: create_subconcepts_def)
  from link_names_follows [OF this assms(2,3), of t2 h'] True cs show ?thesis
    by (simp add: create_subconcepts_def)
qed

lemma create_solution_approaches_follows:
  assumes "create_solution_approaches t1 item h = Inr hA"
    and "list_ex (node_matches ''Question'' ''id'' qid) (g_nodes h)"
    and "dict_index item ''id'' = Inr qid"
  shows "\<exists>hB. create_solution_approaches t2 item h' = Inr hB \<and> follows h h' hA hB"
proof (cases "truthy (dict_get item ''solution_approaches'' (VList []))")
  case False
  with assms show ?thesis by (simp add: create_solution_approaches_def follows_refl)
next
  case True
  with assms(1) obtain as where as: "py_iter (dict_get item ''solution_approaches'' (VList [])) = Inr as"
    by (cases "py_iter (dict_get item ''solution_approaches'' (VList []))")
       (simp_all add: create_solution_approaches_def)
  with True assms(1) have "link_approaches t1 item as h = Inr hA"
    by (simp add: create_solution_approaches_def)
  from link_approaches_follows [OF this assms(2,3), of t2 h'] True as show ?thesis
    by (auto simp: create_solution_approaches_def)
qed

lemma writes_question_sets:
  "writes [''question_title'' \<mapsto> a, ''question'' \<mapsto> b, ''difficulty'' \<mapsto> c,
           ''step_number'' \<mapsto> d, ''sub_step_number'' \<mapsto> e, ''sequence_number'' \<mapsto> f]
     (set_all (question_sets now a b c d e f))"
  by (simp add: writes_def set_all_def question_sets_def node_prop_set_prop label_set_prop)

lemma settable_question_sets:
  "settable (question_sets t2 a b c d e f) = settable (question_sets t1 a b c d e f)"
  by (simp add: settable_def question_sets_def)

lemma question_query_eq:
  assumes "question_query sets qid h = Inr hA"
  shows "qid \<noteq> VNull \<and> settable sets \<and> hA = upsert_node ''Question'' ''id'' qid (set_all sets) h \<and>
         (\<forall>sets' h'. settable sets' \<longrightarrow>
             question_query sets' qid h' = Inr (upsert_node ''Question'' ''id'' qid (set_all sets') h'))"
proof -
  from assms have q: "qid \<noteq> VNull" "storable qid"
    by (auto simp: question_query_def cy_merge_node_def split: if_splits)
  from assms q have s: "settable sets"
    by (auto simp: question_query_def cy_merge_node_def split: if_splits)
  have "question_query sets' qid h' = Inr (upsert_node ''Question'' ''id'' qid (set_all sets') h')"
    if "settable sets'" for sets' h'
    using q that by (simp add: question_query_def cy_merge_node_def upsert_node_def)
  with assms q s show ?thesis by auto
qed

lemma ebind_Inr: "ebind m f = Inr y \<Longrightarrow> \<exists>x. m = Inr x \<and> f x = Inr y"
  by (cases m) simp_all

lemma create_question_node_follows:
  assumes "create_question_node t1 item h = Inr hA"
  shows "\<exists>qid hB. dict_index item ''id'' = Inr qid \<and> create_question_node t2 item h' = Inr hB \<and>
           follows h h' hA hB \<and> list_ex (node_matches ''Question'' ''id'' qid) (g_nodes hA)"
proof -
  from assms obtain qid a b c d e f where
    i: "dict_index item ''id'' = Inr qid" "dict_index item ''question_title'' = Inr a"
       "dict_index item ''question'' = Inr b" "dict_index item ''difficulty'' = Inr c"
       "dict_index item ''step_no'' = Inr d" "dict_index item ''sub_step_no'' = Inr e"
       "dict_index item ''sl_no'' = Inr f"
    and q: "question_query (question_sets t1 a b c d e f) qid h = Inr hA"
    unfolding create_question_node_def
    by (blast dest!: ebind_Inr)
  let ?u1 = "set_all (question_sets t1 a b c d e f)"
  let ?u2 = "set_all (question_sets t2 a b c d e f)"
  from question_query_eq [OF q] settable_question_sets [of t2 a b c d e f t1]
  have n: "qid \<noteq> VNull" and hA: "hA = upsert_node ''Question'' ''id'' qid ?u1 h"
    and q2: "question_query (question_sets t2 a b c d e f) qid h' =
               Inr (upsert_node ''Question'' ''id'' qid ?u2 h')"
    by simp_all
  from i q2 have r: "create_question_node t2 item h' = Inr (upsert_node ''Question'' ''id'' qid ?u2 h')"
    by (simp add: create_question_node_def)
  have fo: "follows h h' hA (upsert_node ''Question'' ''id'' qid ?u2 h')"
    unfolding hA
    by (rule follows_step [OF writes_question_sets writes_question_sets key_names(1) n])
  have "list_ex (node_matches ''Question'' ''id'' qid) (g_nodes hA)"
    unfolding hA by (rule upsert_node_ex [OF writes_question_sets key_names(1) n])
  with i(1) r fo show ?thesis by blast
qed

lemma questions_upsert_node:
  assumes w: "writes w u" and v: "v \<noteq> VNull" and l: "l \<noteq> ''Question''"
  shows "questions (upsert_node l k v u h) = questions h"
proof -
  from w have lab: "\<And>n. n_label (u n) = n_label n" by (simp add: writes_def)
  have "filter (\<lambda>n. n_label n = ''Question'')
          (map (\<lambda>n. if node_matches l k v n then u n else n) ns) =
        filter (\<lambda>n. n_label n = ''Question'') ns" for ns
    using l lab by (induction ns) (auto simp: node_matches_def)
  with l lab show ?thesis
    by (simp add: questions_def upsert_node_nodes [OF v])
qed

lemma questions_link_query: "questions (link_query ty qid l name h) = questions h"
  by (simp add: questions_def link_query_def cy_link_nodes)

lemma link_names_questions:
  "l \<noteq> ''Question'' \<Longrightarrow> link_names now l ty item cs h = Inr hA \<Longrightarrow> questions hA = questions h"
proof (induction cs arbitrary: h)
  case Nil
  then show ?case by simp
next
  case (Cons c cs)
  show ?case
  proof (cases "truthy c")
    case False
    with Cons show ?thesis by simp
  next
    case t: True
    with Cons.prems(2) obtain s where c: "c = VStr s"
      by (cases c) simp_all
    from t c have s: "s \<noteq> []" by simp
    show ?thesis
    proof (cases "strip s = []")
      case True
      with c s Cons show ?thesis by simp
    next
      case False
      from Cons.prems(2) False c s obtain qid where
        r: "link_names now l ty item cs
              (link_query ty qid l (strip s) (upsert_node l ''name'' (VStr (strip s)) (stamp now) h)) = Inr hA"
        by (cases "dict_index item ''id''") (simp_all add: concept_query_eq)
      from Cons.IH [OF Cons.prems(1) r] show ?thesis
        by (simp add: questions_link_query questions_upsert_node [OF writes_stamp _ Cons.prems(1)])
    qed
  qed
qed

lemma link_approaches_questions:
  "link_approaches now item as h = Inr hA \<Longrightarrow> questions hA = questions h"
proof (induction as arbitrary: h)
  case Nil
  then show ?case by simp
next
  case (Cons a as)
  from Cons.prems(1) obtain d where a: "a = VObj d"
    by (cases a) simp_all
  from Cons.prems(1) a obtain name where n: "get_stripped d ''approach_name'' = Inr name"
    by (cases "get_stripped d ''approach_name''") simp_all
  from Cons.prems(1) a n obtain e where e: "get_stripped d ''explanation'' = Inr e"
    by (cases "get_stripped d ''explanation''") simp_all
  show ?case
  proof (cases "name = []")
    case True
    with a n e Cons show ?thesis by simp
  next
    case False
    from Cons.prems(1) False a n e obtain qid where
      r: "link_approaches now item as
            (link_query ''HAS_SOLUTION_APPROACH'' qid ''SolutionApproach'' name
               (upsert_node ''SolutionApproach'' ''name'' (VStr name)
                  (\<lambda>n. stamp now (set_prop ''explanation'' (VStr e) n)) h)) = Inr hA"
      by (cases "dict_index item ''id''") (simp_all add: approach_query_eq)
    from Cons.IH [OF r] show ?thesis
      by (simp add: questions_link_query questions_upsert_node [OF writes_explanation])
  qed
qed

lemma create_standard_concepts_questions:
  "create_standard_concepts now item h = Inr hA \<Longrightarrow> questions hA = questions h"
  by (auto simp: create_standard_concepts_def Let_def split: if_splits
           dest!: ebind_Inr dest: link_names_questions [rotated])

lemma create_subconcepts_questions:
  "create_subconcepts now item h = Inr hA \<Longrightarrow> questions hA = questions h"
  by (auto simp: create_subconcepts_def Let_def split: if_splits
           dest!: ebind_Inr dest: link_names_questions [rotated])

lemma create_solution_approaches_questions:
  "create_solution_approaches now item h = Inr hA \<Longrightarrow> questions hA = questions h"
  by (auto simp: create_solution_approaches_def Let_def split: if_splits
           dest!: ebind_Inr dest: link_approaches_questions)

lemma upsert_node_written:
  assumes v: "v \<noteq> VNull"
    and n: "n \<in> set (g_nodes (upsert_node l k v u h))" and m: "node_matches l k v n"
    and keep: "\<And>x. node_matches l k v (u x) \<Longrightarrow> node_matches l k v x"
  shows "\<exists>x. n = u x"
proof -
  from n have "n \<in> (\<lambda>n. if node_matches l k v n then u n else n) ` set (g_nodes h) \<or>
               n = u \<lparr>n_label = l, n_props = [(k, v)]\<rparr>"
    by (auto simp: upsert_node_nodes [OF v] split: if_splits)
  then show ?thesis
  proof
    assume "n \<in> (\<lambda>n. if node_matches l k v n then u n else n) ` set (g_nodes h)"
    then obtain x where "n = (if node_matches l k v x then u x else x)" by blast
    with m show ?thesis by (cases "node_matches l k v x") auto
  next
    assume "n = u \<lparr>n_label = l, n_props = [(k, v)]\<rparr>"
    then show ?thesis by blast
  qed
qed

lemma dict_index_get: "dict_index d k = Inr v \<Longrightarrow> dict_get d k dflt = v"
  by (auto simp: dict_index_def dict_get_def split: option.splits)

lemma create_question_node_carries:
  assumes "create_question_node now item h = Inr hA"
    and "n \<in> set (g_nodes hA)" and "node_matches ''Question'' ''id'' (dict_get item ''id'' VNull) n"
  shows "carries now item n"
proof -
  from assms(1) obtain qid a b c d e f where
    i: "dict_index item ''id'' = Inr qid" "dict_index item ''question_title'' = Inr a"
       "dict_index item ''question'' = Inr b" "dict_index item ''difficulty'' = Inr c"
       "dict_index item ''step_no'' = Inr d" "dict_index item ''sub_step_no'' = Inr e"
       "dict_index item ''sl_no'' = Inr f"
    and q: "question_query (question_sets now a b c d e f) qid h = Inr hA"
    unfolding create_question_node_def
    by (blast dest!: ebind_Inr)
  let ?u = "set_all (question_sets now a b c d e f)"
  from question_query_eq [OF q]
  have nn: "qid \<noteq> VNull" and hA: "hA = upsert_node ''Question'' ''id'' qid ?u h" by simp_all
  from i(1) have g: "dict_get item ''id'' VNull = qid" by (rule dict_index_get)
  have keep: "node_matches ''Question'' ''id'' qid x" if "node_matches ''Question'' ''id'' qid (?u x)" for x
    using that matches_ident [OF key_names(1) writes_ident [OF writes_question_sets]] by blast
  from upsert_node_written [OF nn assms(2) [unfolded hA] assms(3) [unfolded g] keep]
  obtain x where "n = ?u x" by blast
  then show ?thesis
    using i
    by (simp add: carries_def item_attributes_def dict_index_get set_all_def question_sets_def
          node_prop_set_prop)
qed

lemma upsert_runs_again:
  assumes "populate_question_and_concepts_transaction t1 item g = Inr g1"
  shows "\<exists>g2. populate_question_and_concepts_transaction t2 item g' = Inr g2 \<and>
              follows g g' g1 g2 \<and>
              (\<forall>n \<in> set (g_nodes g2).
                  node_matches ''Question'' ''id'' (dict_get item ''id'' VNull) n \<longrightarrow>
                  carries t2 item n)"
proof -
  from assms obtain u hA1 hA2 hA3 where
    v: "validate_question_data item = Inr u"
    and a1: "create_question_node t1 item g = Inr hA1"
    and a2: "create_standard_concepts t1 item hA1 = Inr hA2"
    and a3: "create_subconcepts t1 item hA2 = Inr hA3"
    and a4: "create_solution_approaches t1 item hA3 = Inr g1"
    unfolding populate_question_and_concepts_transaction_def
    by (blast dest!: ebind_Inr)
  from create_question_node_follows [OF a1, of t2 g']
  obtain qid hB1 where i: "dict_index item ''id'' = Inr qid"
    and b1: "create_question_node t2 item g' = Inr hB1"
    and f1: "follows g g' hA1 hB1"
    and q1: "list_ex (node_matches ''Question'' ''id'' qid) (g_nodes hA1)" by blast
  from create_standard_concepts_follows [OF a2 q1 i, of t2 hB1]
  obtain hB2 where b2: "create_standard_concepts t2 item hB1 = Inr hB2"
    and f2: "follows hA1 hB1 hA2 hB2"
    and q2: "list_ex (node_matches ''Question'' ''id'' qid) (g_nodes hA2)" by blast
  from create_subconcepts_follows [OF a3 q2 i, of t2 hB2]
  obtain hB3 where b3: "create_subconcepts t2 item hB2 = Inr hB3"
    and f3: "follows hA2 hB2 hA3 hB3"
    and q3: "list_ex (node_matches ''Question'' ''id'' qid) (g_nodes hA3)" by blast
  from create_solution_approaches_follows [OF a4 q3 i, of t2 hB3]
  obtain g2 where b4: "create_solution_approaches t2 item hB3 = Inr g2"
    and f4: "follows hA3 hB3 g1 g2" by blast
  from v b1 b2 b3 b4 have r: "populate_question_and_concepts_transaction t2 item g' = Inr g2"
    by (simp add: populate_question_and_concepts_transaction_def)
  from follows_trans [OF follows_trans [OF follows_trans [OF f1 f2] f3] f4]
  have fo: "follows g g' g1 g2" .
  have qs: "questions g2 = questions hB1"
    using create_solution_approaches_questions [OF b4] create_subconcepts_questions [OF b3]
      create_standard_concepts_questions [OF b2] by simp
  have "carries t2 item n"
    if n: "n \<in> set (g_nodes g2)"
      and m: "node_matches ''Question'' ''id'' (dict_get item ''id'' VNull) n" for n
  proof -
    from m have "n_label n = ''Question''" by (simp add: node_matches_def)
    with n have "n \<in> set (questions g2)" by (simp add: questions_def)
    with qs have "n \<in> set (g_nodes hB1)" by (simp add: questions_def)
    from create_question_node_carries [OF b1 this m] show ?thesis .
  qed
  with r fo show ?thesis by blast
qed

lemma upsert_fails_again:
  assumes "populate_question_and_concepts_transaction t1 item g = Inl e"
  shows "\<exists>e'. populate_question_and_concepts_transaction t2 item g' = Inl e'"
proof (cases "populate_question_and_concepts_transaction t2 item g'")
  case (Inl e')
  then show ?thesis by blast
next
  case (Inr g2)
  from upsert_runs_again [OF this, of t1 g] assms show ?thesis by auto
qed

lemma committed_run_upsert:
  "committed (run_upsert now item d) =
     (case populate_question_and_concepts_transaction now item (committed d) of
        Inl e \<Rightarrow> committed d | Inr g \<Rightarrow> g)"
  by (simp add: run_upsert_def execute_transaction_def on_tx_def commit_def split: sum.splits)

lemma same_modulo_time_refl: "same_modulo_time g g"
  by (simp add: same_modulo_time_def)

text \<open>
  Claim C3.  Running the upsert transaction of an item a second time, on the database
  the first run left, gives the same graph up to time: the same edge list, the same
  nodes in number, label and position, and every property other than \<open>created_at\<close>
  and \<open>updated_at\<close> with the same value.  This holds whether the first transaction
  committed or was rolled back.  When it committed, the second one commits too, and
  the question nodes of the item carry the item's attributes and the time of the
  second run.
\<close>

theorem upsert_twice_same_graph:
  "same_modulo_time (committed (run_upsert t1 item d))
     (committed (run_upsert t2 item (run_upsert t1 item d))) \<and>
   (\<forall>g1. populate_question_and_concepts_transaction t1 item (committed d) = Inr g1 \<longrightarrow>
      committed (run_upsert t1 item d) = g1 \<and>
      (\<exists>g2. populate_question_and_concepts_transaction t2 item g1 = Inr g2 \<and>
            committed (run_upsert t2 item (run_upsert t1 item d)) = g2 \<and>
            (\<forall>n \<in> set (g_nodes g2).
                node_matches ''Question'' ''id'' (dict_get item ''id'' VNull) n \<longrightarrow>
                carries t2 item n)))"
proof (cases "populate_question_and_concepts_transaction t1 item (committed d)")
  case (Inl e)
  from upsert_fails_again [OF Inl, of t2 "committed d"]
  obtain e' where "populate_question_and_concepts_transaction t2 item (committed d) = Inl e'"
    by blast
  with Inl show ?thesis
    by (simp add: committed_run_upsert same_modulo_time_refl)
next
  case (Inr g1)
  from upsert_runs_again [OF Inr, of t2 g1]
  obtain g2 where r: "populate_question_and_concepts_transaction t2 item g1 = Inr g2"
    and f: "follows (committed d) g1 g1 g2"
    and c: "\<forall>n \<in> set (g_nodes g2).
              node_matches ''Question'' ''id'' (dict_get item ''id'' VNull) n \<longrightarrow> carries t2 item n"
    by blast
  from f have "twin g1 g2 (committed d) g1" by (simp add: follows_def twin_done)
  from twin_same [OF this] have "same_modulo_time g1 g2" .
  with Inr r c show ?thesis
    by (simp add: committed_run_upsert)
qed

theorem upsert_twice_same_graph_witness:
  "same_modulo_time (committed (run_upsert 1 item_q5 new_db))
     (committed (run_upsert 2 item_q5 (run_upsert 1 item_q5 new_db))) \<and>
   (\<exists>g1. populate_question_and_concepts_transaction 1 item_q5 (committed new_db) = Inr g1 \<and>
      committed (run_upsert 1 item_q5 new_db) = g1 \<and>
      (\<exists>g2. populate_question_and_concepts_transaction 2 item_q5 g1 = Inr g2 \<and>
            committed (run_upsert 2 item_q5 (run_upsert 1 item_q5 new_db)) = g2 \<and>
            list_all (carries 2 item_q5) (questions g2))) \<and>
   map n_label (g_nodes (committed (run_upsert 2 item_q5 (run_upsert 1 item_q5 new_db)))) =
     [''Question'', ''Concept'', ''SubConcept'', ''SolutionApproach'']"
proof -
  have "case populate_question_and_concepts_transaction 1 item_q5 (committed new_db) of
          Inl e \<Rightarrow> False | Inr g1 \<Rightarrow> True"
    by code_simp
  then obtain g1 where
    h: "populate_question_and_concepts_transaction 1 item_q5 (committed new_db) = Inr g1"
    by (cases "populate_question_and_concepts_transaction 1 item_q5 (committed new_db)") simp_all
  have l: "map n_label (g_nodes (committed (run_upsert 2 item_q5 (run_upsert 1 item_q5 new_db)))) =
     [''Question'', ''Concept'', ''SubConcept'', ''SolutionApproach'']"
    by code_simp
  have q: "list_all (node_matches ''Question'' ''id'' (dict_get item_q5 ''id'' VNull))
             (questions (committed (run_upsert 2 item_q5 (run_upsert 1 item_q5 new_db))))"
    by code_simp
  from upsert_twice_same_graph [of 1 item_q5 new_db 2] h
  obtain g2 where s: "same_modulo_time (committed (run_upsert 1 item_q5 new_db))
       (committed (run_upsert 2 item_q5 (run_upsert 1 item_q5 new_db)))"
    and c1: "committed (run_upsert 1 item_q5 new_db) = g1"
    and r: "populate_question_and_concepts_transaction 2 item_q5 g1 = Inr g2"
    and c2: "committed (run_upsert 2 item_q5 (run_upsert 1 item_q5 new_db)) = g2"
    and c: "\<forall>n \<in> set (g_nodes g2).
              node_matches ''Question'' ''id'' (dict_get item_q5 ''id'' VNull) n \<longrightarrow> carries 2 item_q5 n"
    by blast
  from q c c2 have "list_all (carries 2 item_q5) (questions g2)"
    by (auto simp: list_all_iff questions_def)
  with s h c1 r c2 l show ?thesis by blast
qed

section \<open>Where the code departs from its specification\<close>

text \<open>
  What holds of the two claims that follow in part: an item that lacks a required field
  is rejected with an error that names the field, and the unmastered query returns at
  most \<open>limit\<close> rows, each the row of a question the student has not mastered.
\<close>

lemma missing_field_is_named:
  assumes "field \<in> set required_fields" and "\<not> dict_has item field"
  shows "validate_question_data item =
           Inl (DataValidationError (missing_message (missing_fields item))) \<and>
         field \<in> set (missing_fields item)"
proof -
  from assms have "field \<in> set (missing_fields item)" by (simp add: missing_fields_def)
  moreover from this have "missing_fields item \<noteq> []" by auto
  ultimately show ?thesis by (simp add: validate_question_data_def)
qed

lemma unmastered_rows:
  assumes "find_unmastered_questions_for_student student_id limit g = Inr rows"
  shows "length rows \<le> nat limit \<and>
         (\<forall>r \<in> set rows. \<exists>i < length (g_nodes g). r = question_row (g_nodes g ! i) \<and>
              n_label (g_nodes g ! i) = ''Question'' \<and> \<not> mastered_by student_id g i)"
proof -
  let ?ids = "sort_key (\<lambda>i. curriculum_key (g_nodes g ! i)) (unmastered_ids student_id g)"
  from assms have l: "0 \<le> limit" and rows: "rows = map (\<lambda>i. question_row (g_nodes g ! i)) (take (nat limit) ?ids)"
    by (auto simp: find_unmastered_questions_for_student_def split: if_splits)
  have "set (take (nat limit) ?ids) \<subseteq> set (unmastered_ids student_id g)"
    using set_take_subset [of "nat limit" ?ids] by simp
  then have "\<forall>i \<in> set (take (nat limit) ?ids). i < length (g_nodes g) \<and>
               n_label (g_nodes g ! i) = ''Question'' \<and> \<not> mastered_by student_id g i"
    by (auto simp: unmastered_ids_def)
  with rows show ?thesis by auto
qed

text \<open>
  Claim C5 (the code reads the wrong list).  \<open>_create_standard_concepts\<close> takes its
  names from \<open>sub_concepts\<close>: upserting \<open>item_q5\<close> into the empty graph creates the
  \<open>Concept\<close> node \<open>c1\<close>, a sub-concept of the item, and no node for its standard concept
  \<open>Arrays\<close>.
\<close>

theorem standard_concepts_read_from_sub_concepts:
  "ebind (populate_question_and_concepts_transaction 1 item_q5 empty_graph)
     (\<lambda>g. Inr (map (\<lambda>n. (n_label n, node_prop n ''name'')) (g_nodes g), edge_triples g)) =
   Inr ([(''Question'', VNull), (''Concept'', VStr ''c1''), (''SubConcept'', VStr ''c1''),
         (''SolutionApproach'', VStr ''A'')],
        [(0, ''INVOLVES_CONCEPT'', 1), (0, ''INVOLVES_SUBCONCEPT'', 2),
         (0, ''HAS_SOLUTION_APPROACH'', 3)])"
  by code_simp

text \<open>
  Claim C6 (the code overwrites \<open>created_at\<close>).  The statement of
  \<open>_create_question_node\<close> sets \<open>q.created_at = datetime()\<close> on every run, where the
  statements for concepts, sub-concepts and approaches use \<open>coalesce\<close>: after upserting
  \<open>item_q1\<close> at time 1 and again at time 2 the question carries \<open>created_at = 2\<close>, the
  other nodes \<open>created_at = 1\<close>.
\<close>

theorem question_created_at_overwritten:
  "ebind (ebind (populate_question_and_concepts_transaction 1 item_q1 empty_graph)
            (populate_question_and_concepts_transaction 2 item_q1))
     (\<lambda>g. Inr (map (\<lambda>n. (n_label n, node_prop n ''created_at'', node_prop n ''updated_at''))
                 (g_nodes g))) =
   Inr [(''Question'', VTime 2, VTime 2), (''Concept'', VTime 1, VTime 2),
        (''SubConcept'', VTime 1, VTime 2)]"
  by code_simp

text \<open>
  Claim C7 (the field rules are never applied).  An item that lacks a required field
  is rejected and the error names the fields; but batch ingestion validates with
  \<open>_validate_question_data\<close> alone, so \<open>item_q5\<close>, whose title is white space, is
  valid, is upserted and is counted as processed.  \<open>_validate_item_fields\<close> would
  reject it.
\<close>

theorem blank_title_is_ingested:
  "validate_data_items [item_q5, item_q4] =
     Inr \<lparr>vr_valid_items = [item_q5], vr_invalid_items = [item_q4],
          vr_invalid_item_ids = [VStr ''q4'']\<rparr> \<and>
   validate_question_data item_q4 =
     Inl (DataValidationError
           (''Missing required fields: ['' @ [CHR 0x27] @ ''difficulty'' @ [CHR 0x27] @ '', '' @
              [CHR 0x27] @ ''sl_no'' @ [CHR 0x27] @ '']'')) \<and>
   fst (process_data_in_batches (populate_question_and_concepts_transaction 1) [item_q5] 100 new_db) =
     Inr \<lparr>total_items = 1, processed_items = 1, failed_items = 0, invalid_items = 0,
          failed_item_ids = [], invalid_item_ids = []\<rparr> \<and>
   validate_item_fields item_q5 =
     Inl (DataValidationError ''Field question_title cannot be empty'')"
  by code_simp

text \<open>
  Claim C8 (the query orders by a property the upsert never writes).  The upsert
  stores \<open>sub_step_number\<close>; the query orders by, and returns, \<open>substep_number\<close>, which
  is null on every ingested question.  With \<open>q5\<close> at \<open>(1, 2, 1)\<close> and \<open>q6\<close> at
  \<open>(1, 1, 2)\<close> the result lists \<open>q5\<close> first.
\<close>

theorem unmastered_order_ignores_sub_step:
  "find_unmastered_questions_for_student ''s1'' 20
     (committed (run_upsert 2 item_q6 (run_upsert 1 item_q5 new_db))) =
   Inr [[(''id'', VStr ''q5''), (''title'', VNull), (''content'', VNull),
         (''difficulty'', VStr ''easy''), (''step_number'', VNum 1),
         (''sub_step_number'', VNull), (''sequence_number'', VNum 1),
         (''standard_concepts'', VNull), (''sub_concepts'', VNull),
         (''solution_approaches'', VNull)],
        [(''id'', VStr ''q6''), (''title'', VNull), (''content'', VNull),
         (''difficulty'', VStr ''easy''), (''step_number'', VNum 1),
         (''sub_step_number'', VNull), (''sequence_number'', VNum 2),
         (''standard_concepts'', VNull), (''sub_concepts'', VNull),
         (''solution_approaches'', VNull)]] \<and>
   map (\<lambda>n. (node_prop n ''id'', node_prop n ''step_number'', node_prop n ''sub_step_number'',
              node_prop n ''sequence_number''))
     (filter (\<lambda>n. n_label n = ''Question'')
        (g_nodes (committed (run_upsert 2 item_q6 (run_upsert 1 item_q5 new_db))))) =
   [(VStr ''q5'', VNum 1, VNum 2, VNum 1), (VStr ''q6'', VNum 1, VNum 1, VNum 2)]"
  by code_simp

text \<open>
  Claim C4 (the approaches written are not the approaches read).  The upsert stores
  an approach as a \<open>SolutionApproach\<close> node and an edge; \<open>find_question_by_id\<close> reads
  the property \<open>solution_approaches\<close> of the question node, which the upsert never
  sets.  The question read back after upserting \<open>item_q5\<close> has no approach.
\<close>

theorem approaches_not_read_back:
  "ebind (populate_question_and_concepts_transaction 1 item_q5 empty_graph)
     (find_question_by_id ''q5'') =
   Inr (Some \<lparr>q_id = VStr ''q5'', q_title = VNull, q_content = VNull,
              q_difficulty = VStr ''easy'', q_step_number = VNum 1, q_sub_step_number = VNull,
              q_sequence_number = VNum 1, q_standard_concepts = VNull, q_sub_concepts = VNull,
              q_solution_approaches = []\<rparr>)"
  by code_simp

text \<open>
  Claim C2 (three commits, not one).  \<open>complete_question_transaction\<close> never uses its
  handle: each repository method runs in a session of its own and commits at once.
  The committed states the call leaves behind, most recent first, are the state after
  the mastery edge was written (the sub-concept statement changed nothing: the question
  has no property \<open>sub_concepts\<close>), the state with the \<open>ATTEMPTED\<close> edge and no
  \<open>MASTERED\<close> edge, and the state before the call.
\<close>

theorem complete_question_commits_three_times:
  "fst (complete_question 4 ''s1'' ''q1'' True db_s1_q1) = Inr () \<and>
   edge_triples (committed (snd (complete_question 4 ''s1'' ''q1'' True db_s1_q1))) =
     [(0, ''INVOLVES_CONCEPT'', 1), (0, ''INVOLVES_SUBCONCEPT'', 2),
      (3, ''ATTEMPTED'', 0), (3, ''MASTERED'', 0)] \<and>
   map edge_triples (take 3 (history (snd (complete_question 4 ''s1'' ''q1'' True db_s1_q1)))) =
     [[(0, ''INVOLVES_CONCEPT'', 1), (0, ''INVOLVES_SUBCONCEPT'', 2),
       (3, ''ATTEMPTED'', 0), (3, ''MASTERED'', 0)],
      [(0, ''INVOLVES_CONCEPT'', 1), (0, ''INVOLVES_SUBCONCEPT'', 2), (3, ''ATTEMPTED'', 0)],
      [(0, ''INVOLVES_CONCEPT'', 1), (0, ''INVOLVES_SUBCONCEPT'', 2)]]"
  by code_simp

end
